theory Spec2Isabelle
  imports Complex_Main "HOL-Library.Word" "HOL-Library.Sublist"
begin

unbundle bit_operations_syntax

section \<open>Machine integers and the packed datagram\<close>

type_synonym u8 = "8 word"
type_synonym u16 = "16 word"
type_synonym u32 = "32 word"

text \<open>
  Both nodes declare the same struct under \<^verbatim>\<open>#pragma pack(push,1)\<close>:
  \<^verbatim>\<open>
  struct TouchPacket {
    uint8_t  ver; uint8_t  n; uint8_t  id[3];
    uint16_t seq; uint32_t ms; uint16_t v[MAX_CH];
  };
  \<close>
  The fields are prefixed with \<open>pkt_\<close> (the source writes \<open>pkt.ver\<close>, \<open>pkt.n\<close>, ...),
  because \<open>id\<close> is a HOL constant and \<open>n\<close>, \<open>v\<close> are wanted as variables.
\<close>

record TouchPacket =
  pkt_ver :: u8
  pkt_n :: u8
  pkt_id :: "u8 list"
  pkt_seq :: u16
  pkt_ms :: u32
  pkt_v :: "u16 list"

definition MAX_CH :: nat where
  "MAX_CH = 32"

text \<open>
  The header size, as both files compute it from \<open>sizeof\<close>, and the size of the whole
  packed struct.
\<close>

definition HEADER_LEN :: nat where
  "HEADER_LEN = 1 + 1 + 3 + 2 + 4"

definition sizeof_TouchPacket :: nat where
  "sizeof_TouchPacket = HEADER_LEN + 2 * MAX_CH"

text \<open>Little-endian object representation of the multi-byte fields (the ESP32 is little-endian).\<close>

definition le16 :: "u16 \<Rightarrow> u8 list" where
  "le16 w = [ucast w, ucast (drop_bit 8 w)]"

definition le32 :: "u32 \<Rightarrow> u8 list" where
  "le32 w = [ucast w, ucast (drop_bit 8 w), ucast (drop_bit 16 w), ucast (drop_bit 24 w)]"

definition from_le16 :: "u8 \<Rightarrow> u8 \<Rightarrow> u16" where
  "from_le16 b0 b1 = ucast b0 OR push_bit 8 (ucast b1)"

definition from_le32 :: "u8 \<Rightarrow> u8 \<Rightarrow> u8 \<Rightarrow> u8 \<Rightarrow> u32" where
  "from_le32 b0 b1 b2 b3 =
     ucast b0 OR push_bit 8 (ucast b1) OR push_bit 16 (ucast b2) OR push_bit 24 (ucast b3)"

text \<open>
  The bytes of a packed \<open>TouchPacket\<close> object, which is what \<open>(uint8_t*)&pkt\<close> and
  \<open>(void*)&pkt\<close> address: offsets 0, 1, 2..4, 5..6, 7..10 and 11 + 2 i. The arrays are read
  by index, as C does, so the representation always has \<open>sizeof_TouchPacket\<close> bytes.
\<close>

definition to_bytes :: "TouchPacket \<Rightarrow> u8 list" where
  "to_bytes p =
     [pkt_ver p, pkt_n p, pkt_id p ! 0, pkt_id p ! 1, pkt_id p ! 2]
     @ le16 (pkt_seq p) @ le32 (pkt_ms p)
     @ concat (map (\<lambda>i. le16 (pkt_v p ! i)) [0..<MAX_CH])"

definition of_bytes :: "u8 list \<Rightarrow> TouchPacket" where
  "of_bytes bs =
     \<lparr> pkt_ver = bs ! 0, pkt_n = bs ! 1, pkt_id = [bs ! 2, bs ! 3, bs ! 4],
       pkt_seq = from_le16 (bs ! 5) (bs ! 6),
       pkt_ms = from_le32 (bs ! 7) (bs ! 8) (bs ! 9) (bs ! 10),
       pkt_v = map (\<lambda>i. from_le16 (bs ! (HEADER_LEN + 2 * i)) (bs ! (HEADER_LEN + 2 * i + 1)))
                 [0..<MAX_CH] \<rparr>"

text \<open>\<open>memcpy(dst, src, k)\<close>: the first \<open>k\<close> bytes of \<open>dst\<close> are replaced, the rest stay.\<close>

definition memcpy :: "'a list \<Rightarrow> 'a list \<Rightarrow> nat \<Rightarrow> 'a list" where
  "memcpy dst src k = take k src @ drop k dst"

section \<open>The hub (usb-hub-node.cpp)\<close>

text \<open>
  The hub's globals: \<open>volatile bool pktReady\<close>, \<open>TouchPacket pkt\<close> (the single-slot mailbox,
  here \<open>hub_pkt\<close>: the sensor has a global of the same name) and \<open>uint8_t lastSender[6]\<close>.
\<close>

record hub =
  pktReady :: bool
  hub_pkt :: TouchPacket
  lastSender :: "u8 list"

text \<open>Globals are zero-initialised at boot.\<close>

definition zero_packet :: TouchPacket where
  "zero_packet =
     \<lparr> pkt_ver = 0, pkt_n = 0, pkt_id = replicate 3 0, pkt_seq = 0, pkt_ms = 0,
       pkt_v = replicate MAX_CH 0 \<rparr>"

definition hub_boot :: hub where
  "hub_boot = \<lparr> pktReady = False, hub_pkt = zero_packet, lastSender = replicate 6 0 \<rparr>"

text \<open>
  \<^verbatim>\<open>
  void onRecv(const uint8_t* mac, const uint8_t* data, int len) {
    if (len < (int)(sizeof(uint8_t)*2 + 3 + sizeof(uint16_t) + sizeof(uint32_t))) return;
    memcpy((void*)&pkt, data, min(len, (int)sizeof(TouchPacket)));
    memcpy((void*)lastSender, mac, 6);
    pktReady = true;
  }
  \<close>
\<close>

definition onRecv :: "u8 list \<Rightarrow> u8 list \<Rightarrow> int \<Rightarrow> hub \<Rightarrow> hub" where
  "onRecv mac data len h =
     (if len < int (1 * 2 + 3 + 2 + 4) then h
      else h \<lparr> hub_pkt := of_bytes (memcpy (to_bytes (hub_pkt h)) data
                                   (nat (min len (int sizeof_TouchPacket)))),
               lastSender := memcpy (lastSender h) mac 6,
               pktReady := True \<rparr>)"

text \<open>The radio layer calls the callback with the payload and its length.\<close>

definition deliver :: "u8 list \<Rightarrow> u8 list \<Rightarrow> hub \<Rightarrow> hub" where
  "deliver mac data h = onRecv mac data (int (length data)) h"

subsection \<open>Text output\<close>

text \<open>
  \<open>Print::printNumber\<close> of the Arduino core writes the digits of an unsigned number by
  repeated division in a do-while loop (so 0 prints as one digit); \<open>%02X\<close> prints a byte
  as two uppercase hexadecimal digits.
\<close>

definition digit_char :: "nat \<Rightarrow> char" where
  "digit_char d = ''0123456789ABCDEF'' ! d"

fun printNumber :: "nat \<Rightarrow> string" where
  "printNumber k = (if k < 10 then [digit_char k] else printNumber (k div 10) @ [digit_char (k mod 10)])"

declare printNumber.simps [simp del]

text \<open>\<open>Print::print(int)\<close> and \<open>Print::print(unsigned)\<close> in base 10.\<close>

definition print_int :: "int \<Rightarrow> string" where
  "print_int k = (if k < 0 then CHR ''-'' # printNumber (nat (- k)) else printNumber (nat k))"

definition print_02X :: "u8 \<Rightarrow> string" where
  "print_02X b = [digit_char (unat b div 16), digit_char (unat b mod 16)]"

text \<open>
  The channel loop of the serialiser:
  \<^verbatim>\<open>
  for (int i = 0; i < p.n && i < 32; i++) {
    Serial.print(',');
    Serial.print((int)p.v[i]);
  }
  \<close>
\<close>

function print_channels :: "TouchPacket \<Rightarrow> nat \<Rightarrow> string" where
  "print_channels p i =
     (if i < unat (pkt_n p) \<and> i < 32
      then CHR '','' # print_int (uint (pkt_v p ! i)) @ print_channels p (Suc i)
      else [])"
  by pat_completeness auto
termination
  by (relation "measure (\<lambda>(p, i). 32 - i)") auto

declare print_channels.simps [simp del]

text \<open>
  \<^verbatim>\<open>
  void loop() {
    if (!pktReady) return;
    noInterrupts();
    TouchPacket p = pkt;
    uint8_t m[6]; memcpy(m, lastSender, 6);
    pktReady = false;
    interrupts();
    char macbuf[13];
    snprintf(macbuf, sizeof(macbuf), "%02X%02X%02X%02X%02X%02X", m[0],m[1],m[2],m[3],m[4],m[5]);
    Serial.print("touch,"); Serial.print(macbuf); Serial.print(',');
    Serial.printf("%02X%02X%02X,", p.id[0], p.id[1], p.id[2]);
    Serial.print(p.seq); Serial.print(',');
    Serial.print(p.ms);  Serial.print(',');
    Serial.print((int)p.n);
    for (...) {...}
    Serial.print('\n');
  }
  \<close>
  The model returns the new globals and the text written to the serial link.
\<close>

definition hub_loop :: "hub \<Rightarrow> hub \<times> string" where
  "hub_loop h =
     (if \<not> pktReady h then (h, [])
      else
        let p = hub_pkt h;
            m = take 6 (lastSender h);
            h' = h \<lparr> pktReady := False \<rparr>;
            macbuf = print_02X (m ! 0) @ print_02X (m ! 1) @ print_02X (m ! 2)
                   @ print_02X (m ! 3) @ print_02X (m ! 4) @ print_02X (m ! 5)
        in (h', ''touch,'' @ macbuf @ '',''
                @ print_02X (pkt_id p ! 0) @ print_02X (pkt_id p ! 1) @ print_02X (pkt_id p ! 2)
                @ '',''
                @ print_int (uint (pkt_seq p)) @ '',''
                @ printNumber (unat (pkt_ms p)) @ '',''
                @ print_int (uint (pkt_n p))
                @ print_channels p 0
                @ [CHR 0x0A]))"

section \<open>The sensor (sensor-node.cpp)\<close>

subsection \<open>Configuration\<close>

text \<open>
  The compile-time configuration: \<open>int TOUCH_PINS[]\<close> and \<open>const uint32_t TARGET_HZ\<close>.
  \<open>sensor_config\<close> is the one in the source; the functions below take the configuration as
  an argument, since the specification speaks about every \<open>NUM_CH\<close> and \<open>TARGET_HZ\<close>.
\<close>

record config =
  TOUCH_PINS :: "int list"
  TARGET_HZ :: u32

definition sensor_config :: config where
  "sensor_config = \<lparr> TOUCH_PINS = [1,2,3,4,5,6,7,8,9,10,11,12,13,14], TARGET_HZ = 250 \<rparr>"

text \<open>\<^verbatim>\<open>const int NUM_CH = min((int)(sizeof(TOUCH_PINS)/sizeof(TOUCH_PINS[0])), MAX_CH);\<close>\<close>

definition NUM_CH :: "config \<Rightarrow> int" where
  "NUM_CH cfg = min (int (length (TOUCH_PINS cfg))) (int MAX_CH)"

subsection \<open>Single-precision arithmetic\<close>

text \<open>
  The filter state is \<open>float\<close>. The arithmetic of the target (rounding of every operation
  and of the literals \<open>0.2f\<close>, \<open>0.0015f\<close>, conversion of \<open>int\<close> to \<open>float\<close>) is a parameter
  of the model: a value of \<open>'f fpu\<close> over a carrier \<open>'f\<close> of float values. \<open>fval\<close> gives the
  real number a finite float denotes (\<open>None\<close> for NaN and the infinities), and
  \<open>lround_unspec\<close> is what the C library's \<open>lroundf\<close> returns where the standard leaves the
  result unspecified. Expressions are evaluated operation by operation, as written in the
  source.
\<close>

record 'f fpu =
  fadd :: "'f \<Rightarrow> 'f \<Rightarrow> 'f"
  fsub :: "'f \<Rightarrow> 'f \<Rightarrow> 'f"
  fmul :: "'f \<Rightarrow> 'f \<Rightarrow> 'f"
  fdiv :: "'f \<Rightarrow> 'f \<Rightarrow> 'f"
  flit :: "real \<Rightarrow> 'f"
  f_of_int :: "int \<Rightarrow> 'f"
  fval :: "'f \<Rightarrow> real option"
  lround_unspec :: "'f \<Rightarrow> 32 word"

text \<open>Exact arithmetic on the reals is one instance; it is used to run the model.\<close>

definition exact_fpu :: "real fpu" where
  "exact_fpu = \<lparr> fadd = (+), fsub = (-), fmul = (*), fdiv = (/), flit = (\<lambda>x. x),
                 f_of_int = of_int, fval = Some, lround_unspec = (\<lambda>_. 0) \<rparr>"

text \<open>\<^verbatim>\<open>const float LPF_ALPHA = 0.2f; const float BASELINE_ADAPT = 0.0015f;\<close>\<close>

definition LPF_ALPHA :: "'f fpu \<Rightarrow> 'f" where
  "LPF_ALPHA F = flit F (2 / 10)"

definition BASELINE_ADAPT :: "'f fpu \<Rightarrow> 'f" where
  "BASELINE_ADAPT F = flit F (15 / 10000)"

text \<open>
  \<open>lroundf\<close>: the nearest integer, halfway cases away from zero; the result is a 32-bit
  \<open>long\<close>, and it is unspecified when the argument is not finite or the rounded value does
  not fit.
\<close>

definition round_half_away :: "real \<Rightarrow> int" where
  "round_half_away x = (if 0 \<le> x then \<lfloor>x + 1 / 2\<rfloor> else - \<lfloor>- x + 1 / 2\<rfloor>)"

definition lroundf :: "'f fpu \<Rightarrow> 'f \<Rightarrow> int" where
  "lroundf F x =
     (case fval F x of
        None \<Rightarrow> sint (lround_unspec F x)
      | Some r \<Rightarrow>
          (let k = round_half_away r
           in if - (2 ^ 31) \<le> k \<and> k < 2 ^ 31 then k else sint (lround_unspec F x)))"

subsection \<open>State\<close>

text \<open>
  The sensor's globals (\<open>pkt\<close>, \<open>baseline\<close>, \<open>filt\<close>, \<open>seq\<close>, \<open>mac_sta\<close>) and the
  function-local \<open>static uint32_t lastSend\<close> of \<open>loop\<close>.
\<close>

record 'f sensor =
  pkt :: TouchPacket
  baseline :: "'f list"
  filt :: "'f list"
  seq :: u16
  mac_sta :: "u8 list"
  lastSend :: u32

definition sensor_boot :: "'f fpu \<Rightarrow> 'f sensor" where
  "sensor_boot F =
     \<lparr> pkt = zero_packet, baseline = replicate MAX_CH (flit F 0), filt = replicate MAX_CH (flit F 0),
       seq = 0, mac_sta = replicate 6 0, lastSend = 0 \<rparr>"

subsection \<open>The setup function\<close>

text \<open>
  \<^verbatim>\<open>
  for (int i = 0; i < NUM_CH; i++) {
    long s = 0;
    for (int k = 0; k < 32; k++) { s += touchRead(TOUCH_PINS[i]); delay(3); }
    baseline[i] = s / 32.0f;
    filt[i] = baseline[i];
  }
  \<close>
  \<open>reads pin k\<close> is the \<open>k\<close>-th sample the hardware returns for \<open>pin\<close> during \<open>setup\<close>;
  \<open>s\<close> is a 32-bit \<open>long\<close>.
\<close>

definition seed_ch :: "'f fpu \<Rightarrow> config \<Rightarrow> (int \<Rightarrow> nat \<Rightarrow> int) \<Rightarrow> nat \<Rightarrow> 'f sensor \<Rightarrow> 'f sensor" where
  "seed_ch F cfg reads i s =
     (let sm = fold (\<lambda>k acc. sint (word_of_int (acc + reads (TOUCH_PINS cfg ! i) k) :: 32 word))
                 [0..<32] 0;
          s1 = s \<lparr> baseline := (baseline s)[i := fdiv F (f_of_int F sm) (flit F 32)] \<rparr>
      in s1 \<lparr> filt := (filt s1)[i := baseline s1 ! i] \<rparr>)"

text \<open>
  \<^verbatim>\<open>
  esp_read_mac(mac_sta, ESP_MAC_WIFI_STA);
  pkt.ver = 1;
  pkt.n   = NUM_CH;
  pkt.id[0] = mac_sta[3]; pkt.id[1] = mac_sta[4]; pkt.id[2] = mac_sta[5];
  \<close>
  followed by the baseline loop (\<open>setup\<close> of the source; the name is an Isabelle keyword). \<open>mac\<close> is the station MAC the chip reports.
\<close>

definition sensor_setup :: "'f fpu \<Rightarrow> config \<Rightarrow> u8 list \<Rightarrow> (int \<Rightarrow> nat \<Rightarrow> int) \<Rightarrow> 'f sensor" where
  "sensor_setup F cfg mac reads =
     (let s0 = (sensor_boot F) \<lparr> mac_sta := memcpy (mac_sta (sensor_boot F)) mac 6 \<rparr>;
          p0 = pkt s0;
          p1 = p0 \<lparr> pkt_ver := 1 \<rparr>;
          p2 = p1 \<lparr> pkt_n := word_of_int (NUM_CH cfg) \<rparr>;
          p3 = p2 \<lparr> pkt_id := (pkt_id p2)[0 := mac_sta s0 ! 3, 1 := mac_sta s0 ! 4,
                                            2 := mac_sta s0 ! 5] \<rparr>;
          s1 = s0 \<lparr> pkt := p3 \<rparr>
      in fold (seed_ch F cfg reads) [0..<nat (NUM_CH cfg)] s1)"

subsection \<open>loop\<close>

text \<open>
  One channel of the read-and-filter loop:
  \<^verbatim>\<open>
  int raw = touchRead(TOUCH_PINS[i]);
  filt[i] = (1.0f - LPF_ALPHA) * filt[i] + LPF_ALPHA * raw;
  baseline[i] = (1.0f - BASELINE_ADAPT) * baseline[i] + BASELINE_ADAPT * filt[i];
  \<close>
  \<open>touchRead pin\<close> is the sample the hardware returns for \<open>pin\<close> on this tick.
\<close>

definition filter_ch :: "'f fpu \<Rightarrow> config \<Rightarrow> (int \<Rightarrow> int) \<Rightarrow> nat \<Rightarrow> 'f sensor \<Rightarrow> 'f sensor" where
  "filter_ch F cfg touchRead i s =
     (let raw = touchRead (TOUCH_PINS cfg ! i);
          s1 = s \<lparr> filt := (filt s)[i :=
                 fadd F (fmul F (fsub F (flit F 1) (LPF_ALPHA F)) (filt s ! i))
                        (fmul F (LPF_ALPHA F) (f_of_int F raw))] \<rparr>
      in s1 \<lparr> baseline := (baseline s1)[i :=
                 fadd F (fmul F (fsub F (flit F 1) (BASELINE_ADAPT F)) (baseline s1 ! i))
                        (fmul F (BASELINE_ADAPT F) (filt s1 ! i))] \<rparr>)"

text \<open>
  One channel of the packing loop:
  \<^verbatim>\<open>
  int v = (int)lroundf(filt[i]);
  if (v < 0) v = 0; if (v > 65535) v = 65535;
  pkt.v[i] = (uint16_t)v;
  \<close>
\<close>

definition clamp_u16 :: "int \<Rightarrow> int" where
  "clamp_u16 v0 = (let v1 = (if v0 < 0 then 0 else v0) in if v1 > 65535 then 65535 else v1)"

definition pack_ch :: "'f fpu \<Rightarrow> nat \<Rightarrow> 'f sensor \<Rightarrow> 'f sensor" where
  "pack_ch F i s =
     (let v = clamp_u16 (lroundf F (filt s ! i))
      in s \<lparr> pkt := (pkt s) \<lparr> pkt_v := (pkt_v (pkt s))[i := word_of_int v] \<rparr> \<rparr>)"

text \<open>\<^verbatim>\<open>uint32_t periodMs = (TARGET_HZ > 0) ? (1000 / TARGET_HZ) : 0;\<close>\<close>

definition periodMs :: "config \<Rightarrow> u32" where
  "periodMs cfg = (if TARGET_HZ cfg > 0 then 1000 div TARGET_HZ cfg else 0)"

text \<open>
  \<open>esp_now_send(BCAST, (uint8_t*)&pkt, len)\<close> hands the first \<open>len\<close> bytes of the object to the
  radio. (\<open>len\<close> stays within the object as long as \<open>pkt.n\<close> is at most 32, which \<open>setup\<close>
  guarantees; the model has nothing to say about the bytes behind the object.)
\<close>

definition esp_now_send :: "u8 list \<Rightarrow> nat \<Rightarrow> u8 list" where
  "esp_now_send obj len = take len obj"

text \<open>
  The last two statements of the send branch:
  \<^verbatim>\<open>
  size_t len = sizeof(pkt.ver) + sizeof(pkt.n) + sizeof(pkt.id) + sizeof(pkt.seq)
             + sizeof(pkt.ms) + pkt.n*sizeof(uint16_t);
  esp_now_send(BCAST, (uint8_t*)&pkt, len);
  \<close>
\<close>

definition transmit :: "TouchPacket \<Rightarrow> u8 list" where
  "transmit p =
     (let len = 1 + 1 + 3 + 2 + 4 + unat (pkt_n p) * 2
      in esp_now_send (to_bytes p) len)"

text \<open>
  \<^verbatim>\<open>
  void loop() {
    static uint32_t lastSend = 0;
    uint32_t now = millis();
    for (int i = 0; i < NUM_CH; i++) { ... read and filter ... }
    uint32_t periodMs = (TARGET_HZ > 0) ? (1000 / TARGET_HZ) : 0;
    if (periodMs == 0 || (now - lastSend) >= periodMs) {
      lastSend = now;
      pkt.ms = now;
      pkt.seq = seq++;
      for (int i = 0; i < NUM_CH; i++) { ... pack ... }
      ... len, esp_now_send ...
    }
  }
  \<close>
  One tick takes the clock reading \<open>now\<close> and the hardware samples, and returns the new
  state and the datagram handed to the radio, if any.
\<close>

definition loop :: "'f fpu \<Rightarrow> config \<Rightarrow> u32 \<Rightarrow> (int \<Rightarrow> int) \<Rightarrow> 'f sensor \<Rightarrow> 'f sensor \<times> u8 list option" where
  "loop F cfg now touchRead s =
     (let s1 = fold (filter_ch F cfg touchRead) [0..<nat (NUM_CH cfg)] s
      in if periodMs cfg = 0 \<or> now - lastSend s1 \<ge> periodMs cfg
         then
           let s2 = s1 \<lparr> lastSend := now \<rparr>;
               s3 = s2 \<lparr> pkt := (pkt s2) \<lparr> pkt_ms := now \<rparr> \<rparr>;
               s4 = s3 \<lparr> pkt := (pkt s3) \<lparr> pkt_seq := seq s3 \<rparr>, seq := seq s3 + 1 \<rparr>;
               s5 = fold (pack_ch F) [0..<nat (NUM_CH cfg)] s4
           in (s5, Some (transmit (pkt s5)))
         else (s1, None))"

text \<open>
  A run of the sensor: the ticks of \<open>loop\<close> in order, each with its clock reading and its
  samples; the result is the final state and the datagrams transmitted, oldest first.
\<close>

fun run :: "'f fpu \<Rightarrow> config \<Rightarrow> 'f sensor \<Rightarrow> (u32 \<times> (int \<Rightarrow> int)) list \<Rightarrow> 'f sensor \<times> u8 list list" where
  "run F cfg s [] = (s, [])"
| "run F cfg s ((now, touchRead) # ticks) =
     (case loop F cfg now touchRead s of
        (s', out) \<Rightarrow>
          (case run F cfg s' ticks of
             (s'', outs) \<Rightarrow> (s'', (case out of None \<Rightarrow> outs | Some d \<Rightarrow> d # outs))))"

text \<open>Reading the fields of a datagram on the wire (offsets of the packed layout).\<close>

definition wire_n :: "u8 list \<Rightarrow> u8" where
  "wire_n d = d ! 1"

definition wire_seq :: "u8 list \<Rightarrow> u16" where
  "wire_seq d = from_le16 (d ! 5) (d ! 6)"

definition wire_ms :: "u8 list \<Rightarrow> u32" where
  "wire_ms d = from_le32 (d ! 7) (d ! 8) (d ! 9) (d ! 10)"

definition wire_v :: "u8 list \<Rightarrow> nat \<Rightarrow> u16" where
  "wire_v d i = from_le16 (d ! (HEADER_LEN + 2 * i)) (d ! (HEADER_LEN + 2 * i + 1))"

section \<open>The format of the serial line\<close>

text \<open>
  Properties of the emitted text are stated with a reader of the line: the text up to the
  line feed, cut at the commas.
\<close>

fun split_on :: "char \<Rightarrow> string \<Rightarrow> string list" where
  "split_on c [] = [[]]"
| "split_on c (x # xs) =
     (if x = c then [] # split_on c xs
      else (case split_on c xs of [] \<Rightarrow> [[x]] | f # fs \<Rightarrow> (x # f) # fs))"

definition line_fields :: "string \<Rightarrow> string list" where
  "line_fields l = split_on CHR '','' (takeWhile (\<lambda>c. c \<noteq> CHR 0x0A) l)"

text \<open>The fields after the channel count: the channel values.\<close>

definition channel_fields :: "string \<Rightarrow> string list" where
  "channel_fields l = drop 6 (line_fields l)"

text \<open>An unsigned decimal numeral without leading zeros (the numeral \<open>0\<close> itself apart).\<close>

definition is_decimal :: "string \<Rightarrow> bool" where
  "is_decimal f \<longleftrightarrow> f \<noteq> [] \<and> list_all (\<lambda>c. c \<in> set ''0123456789'') f \<and> (hd f = CHR ''0'' \<longrightarrow> f = ''0'')"







text \<open>
  The fields that follow \<open>touch\<close> on a line, as a list: sender MAC, short ID, \<open>seq\<close>, \<open>ms\<close>,
  \<open>n\<close> and the channel values (lemma \<open>hub_loop_line\<close> below shows that the serialiser
  prints exactly these, separated by commas).
\<close>

definition printed_fields :: "TouchPacket \<Rightarrow> u8 list \<Rightarrow> string list" where
  "printed_fields p m =
     [concat (map (\<lambda>j. print_02X (m ! j)) [0..<6]),
      concat (map (\<lambda>j. print_02X (pkt_id p ! j)) [0..<3]),
      printNumber (unat (pkt_seq p)), printNumber (unat (pkt_ms p)), printNumber (unat (pkt_n p))]
     @ map (\<lambda>j. printNumber (unat (pkt_v p ! j))) [0..<min (unat (pkt_n p)) 32]"

section \<open>Invariant of the sensor state\<close>

text \<open>
  What the C declarations and \<open>setup\<close> fix for every state the sensor reaches: the sizes of
  the arrays (\<open>id[3]\<close>, \<open>v[MAX_CH]\<close>, \<open>baseline[MAX_CH]\<close>, \<open>filt[MAX_CH]\<close>) and
  \<open>pkt.n = NUM_CH\<close>.
\<close>

definition sensor_inv :: "config \<Rightarrow> 'f sensor \<Rightarrow> bool" where
  "sensor_inv cfg s \<longleftrightarrow>
     length (pkt_id (pkt s)) = 3 \<and> length (pkt_v (pkt s)) = MAX_CH
     \<and> length (baseline s) = MAX_CH \<and> length (filt s) = MAX_CH
     \<and> pkt_n (pkt s) = word_of_int (NUM_CH cfg)"

section \<open>Concrete inputs\<close>

text \<open>
  Small inputs on which the model is run: a sensor with one wired pin, a state whose
  sequence counter is about to wrap, and three ticks 2 ms apart (the period is 4 ms at
  250 Hz, so the middle tick does not send).
\<close>

definition one_pin :: config where
  "one_pin = \<lparr> TOUCH_PINS = [4], TARGET_HZ = 250 \<rparr>"

definition wrap_state :: "real sensor" where
  "wrap_state = \<lparr> pkt = zero_packet \<lparr> pkt_ver := 1, pkt_n := 1 \<rparr>,
       baseline = replicate MAX_CH 50, filt = replicate MAX_CH 50,
       seq = 65535, mac_sta = replicate 6 0, lastSend = 0 \<rparr>"

definition three_ticks :: "(u32 \<times> (int \<Rightarrow> int)) list" where
  "three_ticks = [(10, \<lambda>pin. 13), (12, \<lambda>pin. 13), (14, \<lambda>pin. 13)]"

text \<open>
  Inputs for the hub: the sender and the four-channel datagram of the specification's first
  scenario, a 100-byte datagram that declares 40 channels, and a 13-byte datagram that
  declares 4 channels but carries only one.
\<close>

definition example_mac :: "u8 list" where
  "example_mac = [0xA1, 0xB2, 0xC3, 0xD4, 0xE5, 0xF6]"

definition example_packet :: TouchPacket where
  "example_packet =
     \<lparr> pkt_ver = 1, pkt_n = 4, pkt_id = [0xD4, 0xE5, 0xF6], pkt_seq = 42, pkt_ms = 123456,
       pkt_v = [5000, 5000, 5000, 5000] @ replicate 28 0 \<rparr>"

definition oversize_datagram :: "u8 list" where
  "oversize_datagram = [1, 40, 0xD4, 0xE5, 0xF6, 42, 0, 0x40, 0xE2, 1, 0] @ replicate 89 7"

definition short_datagram :: "u8 list" where
  "short_datagram = [1, 4, 0xD4, 0xE5, 0xF6, 43, 0, 0x40, 0xE2, 1, 0, 0x10, 0x27]"

section \<open>Lemmas about the byte layout\<close>

lemma from_le16_le16: "from_le16 (ucast w) (ucast (drop_bit 8 w)) = w"
  unfolding from_le16_def
  by (rule bit_word_eqI) (auto simp: bit_simps)

lemma from_le32_le32:
  "from_le32 (ucast w) (ucast (drop_bit 8 w)) (ucast (drop_bit 16 w)) (ucast (drop_bit 24 w)) = w"
  unfolding from_le32_def
proof (rule bit_word_eqI)
  fix k assume k: "k < LENGTH(32)"
  consider "k < 8" | "8 \<le> k" "k < 16" | "16 \<le> k" "k < 24" | "24 \<le> k" by linarith
  then show "bit (ucast (ucast w :: u8) OR push_bit 8 (ucast (ucast (drop_bit 8 w) :: u8)) OR
            push_bit 16 (ucast (ucast (drop_bit 16 w) :: u8)) OR
            push_bit 24 (ucast (ucast (drop_bit 24 w):: u8)) :: u32) k = bit w k"
    using k by cases (auto simp: bit_simps)
qed

lemma length_pairs: "length (concat (map (\<lambda>i. [a i, b i]) [0..<m])) = 2 * m"
  by (induction m) simp_all

lemma nth_pairs:
  "i < m \<Longrightarrow> concat (map (\<lambda>i. [a i, b i]) [0..<m]) ! (2 * i) = a i
     \<and> concat (map (\<lambda>i. [a i, b i]) [0..<m]) ! (2 * i + 1) = b i"
proof (induction m)
  case 0
  then show ?case by simp
next
  case (Suc m)
  show ?case
  proof (cases "i < m")
    case True
    then have "2 * i < 2 * m" "2 * i + 1 < 2 * m" by simp_all
    with Suc.IH [OF True] show ?thesis
      by (simp add: nth_append length_pairs)
  next
    case False
    with Suc.prems have "i = m" by simp
    then show ?thesis by (simp add: nth_append length_pairs)
  qed
qed

lemma length_to_bytes [simp]: "length (to_bytes p) = 75"
  by (simp add: to_bytes_def le16_def le32_def MAX_CH_def length_pairs)

lemma to_bytes_header:
  "to_bytes p ! 0 = pkt_ver p" "to_bytes p ! 1 = pkt_n p" "to_bytes p ! Suc 0 = pkt_n p"
  "to_bytes p ! 2 = pkt_id p ! 0" "to_bytes p ! 3 = pkt_id p ! 1" "to_bytes p ! 4 = pkt_id p ! 2"
  "to_bytes p ! 5 = ucast (pkt_seq p)" "to_bytes p ! 6 = ucast (drop_bit 8 (pkt_seq p))"
  "to_bytes p ! 7 = ucast (pkt_ms p)" "to_bytes p ! 8 = ucast (drop_bit 8 (pkt_ms p))"
  "to_bytes p ! 9 = ucast (drop_bit 16 (pkt_ms p))" "to_bytes p ! 10 = ucast (drop_bit 24 (pkt_ms p))"
  by (simp_all add: to_bytes_def le16_def le32_def)

lemma nth_after_prefix: "length pre = k \<Longrightarrow> (pre @ rest) ! (k + j) = rest ! j"
  by (metis nth_append_length_plus)

lemma to_bytes_channel:
  assumes "i < 32"
  shows "to_bytes p ! (11 + 2 * i) = ucast (pkt_v p ! i)"
    and "to_bytes p ! (11 + 2 * i + 1) = ucast (drop_bit 8 (pkt_v p ! i))"
proof -
  let ?hd = "[pkt_ver p, pkt_n p, pkt_id p ! 0, pkt_id p ! 1, pkt_id p ! 2] @ le16 (pkt_seq p) @ le32 (pkt_ms p)"
  let ?tl = "concat (map (\<lambda>i. [ucast (pkt_v p ! i), ucast (drop_bit 8 (pkt_v p ! i))]) [0..<32])"
  have split: "to_bytes p = ?hd @ ?tl"
    by (simp only: to_bytes_def le16_def MAX_CH_def append_assoc)
  have len: "length ?hd = 11"
    by (simp add: le16_def le32_def)
  have tl: "to_bytes p ! (11 + j) = ?tl ! j" for j
    by (subst split) (rule nth_after_prefix [OF len])
  note np = nth_pairs [OF assms, of "\<lambda>i. ucast (pkt_v p ! i)" "\<lambda>i. ucast (drop_bit 8 (pkt_v p ! i))"]
  show "to_bytes p ! (11 + 2 * i) = ucast (pkt_v p ! i)"
    by (simp only: tl) (rule conjunct1 [OF np])
  show "to_bytes p ! (11 + 2 * i + 1) = ucast (drop_bit 8 (pkt_v p ! i))"
    by (simp only: add.assoc tl) (rule conjunct2 [OF np])
qed

lemma memcpy_nth_new: "j < k \<Longrightarrow> k \<le> length src \<Longrightarrow> memcpy dst src k ! j = src ! j"
  by (simp add: memcpy_def nth_append)

lemma memcpy_nth_old:
  "k \<le> j \<Longrightarrow> k \<le> length src \<Longrightarrow> k \<le> length dst \<Longrightarrow> memcpy dst src k ! j = dst ! j"
  by (simp add: memcpy_def nth_append min_absorb2)

lemma of_bytes_channel:
  "i < 32 \<Longrightarrow> pkt_v (of_bytes bs) ! i = from_le16 (bs ! (11 + 2 * i)) (bs ! (11 + 2 * i + 1))"
  by (simp add: of_bytes_def MAX_CH_def HEADER_LEN_def)

lemma length_of_bytes_v [simp]: "length (pkt_v (of_bytes bs)) = 32"
  by (simp add: of_bytes_def MAX_CH_def)

section \<open>Lemmas about the sensor\<close>

subsection \<open>NUM_CH\<close>

lemma NUM_CH_range: "0 \<le> NUM_CH cfg" "NUM_CH cfg \<le> 32"
  by (simp_all add: NUM_CH_def MAX_CH_def)

lemma unat_NUM_CH: "unat (word_of_int (NUM_CH cfg) :: u8) = nat (NUM_CH cfg)"
proof -
  have "uint (word_of_int (NUM_CH cfg) :: u8) = NUM_CH cfg"
    using NUM_CH_range [of cfg] by (simp add: uint_word_of_int take_bit_int_eq_self)
  then show ?thesis by (simp add: unat_eq_nat_uint)
qed

subsection \<open>The filter loop\<close>

lemma filter_ch_frame [simp]:
  "pkt (filter_ch F cfg tr i s) = pkt s" "seq (filter_ch F cfg tr i s) = seq s"
  "lastSend (filter_ch F cfg tr i s) = lastSend s" "mac_sta (filter_ch F cfg tr i s) = mac_sta s"
  "length (filt (filter_ch F cfg tr i s)) = length (filt s)"
  "length (baseline (filter_ch F cfg tr i s)) = length (baseline s)"
  by (simp_all add: filter_ch_def Let_def)

lemma fold_filter_frame [simp]:
  "pkt (fold (filter_ch F cfg tr) [0..<k] s) = pkt s"
  "seq (fold (filter_ch F cfg tr) [0..<k] s) = seq s"
  "lastSend (fold (filter_ch F cfg tr) [0..<k] s) = lastSend s"
  "mac_sta (fold (filter_ch F cfg tr) [0..<k] s) = mac_sta s"
  "length (filt (fold (filter_ch F cfg tr) [0..<k] s)) = length (filt s)"
  "length (baseline (fold (filter_ch F cfg tr) [0..<k] s)) = length (baseline s)"
  by (induction k) simp_all

lemma fold_filter_nth:
  assumes "k \<le> length (filt s)" "k \<le> length (baseline s)"
  shows "(i < k \<longrightarrow>
            filt (fold (filter_ch F cfg tr) [0..<k] s) ! i
              = fadd F (fmul F (fsub F (flit F 1) (LPF_ALPHA F)) (filt s ! i))
                       (fmul F (LPF_ALPHA F) (f_of_int F (tr (TOUCH_PINS cfg ! i))))
          \<and> baseline (fold (filter_ch F cfg tr) [0..<k] s) ! i
              = fadd F (fmul F (fsub F (flit F 1) (BASELINE_ADAPT F)) (baseline s ! i))
                       (fmul F (BASELINE_ADAPT F) (filt (fold (filter_ch F cfg tr) [0..<k] s) ! i)))
       \<and> (k \<le> i \<longrightarrow> filt (fold (filter_ch F cfg tr) [0..<k] s) ! i = filt s ! i
                   \<and> baseline (fold (filter_ch F cfg tr) [0..<k] s) ! i = baseline s ! i)"
  using assms
proof (induction k)
  case 0
  then show ?case by simp
next
  case (Suc k)
  let ?t = "fold (filter_ch F cfg tr) [0..<k] s"
  from Suc.prems have IH: "(i < k \<longrightarrow>
            filt ?t ! i
              = fadd F (fmul F (fsub F (flit F 1) (LPF_ALPHA F)) (filt s ! i))
                       (fmul F (LPF_ALPHA F) (f_of_int F (tr (TOUCH_PINS cfg ! i))))
          \<and> baseline ?t ! i
              = fadd F (fmul F (fsub F (flit F 1) (BASELINE_ADAPT F)) (baseline s ! i))
                       (fmul F (BASELINE_ADAPT F) (filt ?t ! i)))
       \<and> (k \<le> i \<longrightarrow> filt ?t ! i = filt s ! i \<and> baseline ?t ! i = baseline s ! i)"
    by (intro Suc.IH) simp_all
  have len: "k < length (filt ?t)" "k < length (baseline ?t)"
    using Suc.prems by simp_all
  have step: "fold (filter_ch F cfg tr) [0..<Suc k] s = filter_ch F cfg tr k ?t"
    by simp
  show ?case
    unfolding step using IH len
    by (auto simp: filter_ch_def Let_def nth_list_update)
qed

subsection \<open>The packing loop\<close>

lemma clamp_u16_range: "0 \<le> clamp_u16 k" "clamp_u16 k \<le> 65535"
  by (simp_all add: clamp_u16_def Let_def)

lemma clamp_u16_eq: "clamp_u16 k = max 0 (min 65535 k)"
  by (simp add: clamp_u16_def Let_def)

lemma uint_clamp_u16: "uint (word_of_int (clamp_u16 k) :: u16) = clamp_u16 k"
  using clamp_u16_range [of k] by (simp add: uint_word_of_int take_bit_int_eq_self)

lemma pack_ch_frame [simp]:
  "seq (pack_ch F i s) = seq s" "lastSend (pack_ch F i s) = lastSend s"
  "mac_sta (pack_ch F i s) = mac_sta s" "filt (pack_ch F i s) = filt s"
  "baseline (pack_ch F i s) = baseline s"
  "pkt_ver (pkt (pack_ch F i s)) = pkt_ver (pkt s)" "pkt_n (pkt (pack_ch F i s)) = pkt_n (pkt s)"
  "pkt_id (pkt (pack_ch F i s)) = pkt_id (pkt s)" "pkt_seq (pkt (pack_ch F i s)) = pkt_seq (pkt s)"
  "pkt_ms (pkt (pack_ch F i s)) = pkt_ms (pkt s)"
  "length (pkt_v (pkt (pack_ch F i s))) = length (pkt_v (pkt s))"
  by (simp_all add: pack_ch_def Let_def)

lemma fold_pack_frame [simp]:
  "seq (fold (pack_ch F) [0..<k] s) = seq s" "lastSend (fold (pack_ch F) [0..<k] s) = lastSend s"
  "mac_sta (fold (pack_ch F) [0..<k] s) = mac_sta s" "filt (fold (pack_ch F) [0..<k] s) = filt s"
  "baseline (fold (pack_ch F) [0..<k] s) = baseline s"
  "pkt_ver (pkt (fold (pack_ch F) [0..<k] s)) = pkt_ver (pkt s)"
  "pkt_n (pkt (fold (pack_ch F) [0..<k] s)) = pkt_n (pkt s)"
  "pkt_id (pkt (fold (pack_ch F) [0..<k] s)) = pkt_id (pkt s)"
  "pkt_seq (pkt (fold (pack_ch F) [0..<k] s)) = pkt_seq (pkt s)"
  "pkt_ms (pkt (fold (pack_ch F) [0..<k] s)) = pkt_ms (pkt s)"
  "length (pkt_v (pkt (fold (pack_ch F) [0..<k] s))) = length (pkt_v (pkt s))"
  by (induction k) simp_all

lemma fold_pack_nth:
  assumes "k \<le> length (pkt_v (pkt s))"
  shows "pkt_v (pkt (fold (pack_ch F) [0..<k] s)) ! i
           = (if i < k then word_of_int (clamp_u16 (lroundf F (filt s ! i))) else pkt_v (pkt s) ! i)"
  using assms
proof (induction k)
  case 0
  then show ?case by simp
next
  case (Suc k)
  let ?t = "fold (pack_ch F) [0..<k] s"
  from Suc.prems have IH: "pkt_v (pkt ?t) ! i
           = (if i < k then word_of_int (clamp_u16 (lroundf F (filt s ! i))) else pkt_v (pkt s) ! i)"
    by (intro Suc.IH) simp
  have len: "k < length (pkt_v (pkt ?t))"
    using Suc.prems by simp
  have step: "fold (pack_ch F) [0..<Suc k] s = pack_ch F k ?t"
    by simp
  show ?case
    unfolding step using IH len
    by (auto simp: pack_ch_def Let_def nth_list_update)
qed

subsection \<open>The datagram handed to the radio\<close>

lemma length_transmit: "length (transmit p) = min (11 + 2 * unat (pkt_n p)) 75"
  by (simp add: transmit_def esp_now_send_def Let_def)

lemma transmit_nth: "j < 11 + 2 * unat (pkt_n p) \<Longrightarrow> transmit p ! j = to_bytes p ! j"
  by (simp add: transmit_def esp_now_send_def Let_def)

lemma wire_transmit:
  "wire_n (transmit p) = pkt_n p" "wire_seq (transmit p) = pkt_seq p" "wire_ms (transmit p) = pkt_ms p"
  by (simp_all add: wire_n_def wire_seq_def wire_ms_def transmit_nth to_bytes_header
        from_le16_le16 from_le32_le32)

lemma wire_v_transmit:
  assumes "i < unat (pkt_n p)" "i < 32"
  shows "wire_v (transmit p) i = pkt_v p ! i"
proof -
  have "11 + 2 * i < 11 + 2 * unat (pkt_n p)" "11 + 2 * i + 1 < 11 + 2 * unat (pkt_n p)"
    using assms by simp_all
  then show ?thesis
    using to_bytes_channel [OF assms(2), of p]
    by (simp add: wire_v_def HEADER_LEN_def transmit_nth from_le16_le16)
qed

subsection \<open>One tick\<close>

lemma loop_sent:
  assumes "loop F cfg now tr s = (s', Some d)"
  shows "seq s' = seq s + 1" "pkt_seq (pkt s') = seq s" "pkt_ms (pkt s') = now"
    "pkt_n (pkt s') = pkt_n (pkt s)" "d = transmit (pkt s')" "lastSend s' = now"
    "filt s' = filt (fold (filter_ch F cfg tr) [0..<nat (NUM_CH cfg)] s)"
    "baseline s' = baseline (fold (filter_ch F cfg tr) [0..<nat (NUM_CH cfg)] s)"
  using assms by (auto simp: loop_def Let_def split: if_splits)

lemma loop_sent_v:
  assumes "loop F cfg now tr s = (s', Some d)" "nat (NUM_CH cfg) \<le> length (pkt_v (pkt s))"
  shows "pkt_v (pkt s') ! i
           = (if i < nat (NUM_CH cfg) then word_of_int (clamp_u16 (lroundf F (filt s' ! i)))
              else pkt_v (pkt s) ! i)"
  using assms by (auto simp: loop_def Let_def fold_pack_nth split: if_splits)

lemma loop_skipped:
  assumes "loop F cfg now tr s = (s', None)"
  shows "seq s' = seq s" "pkt s' = pkt s" "lastSend s' = lastSend s"
    "filt s' = filt (fold (filter_ch F cfg tr) [0..<nat (NUM_CH cfg)] s)"
    "baseline s' = baseline (fold (filter_ch F cfg tr) [0..<nat (NUM_CH cfg)] s)"
  using assms by (auto simp: loop_def Let_def split: if_splits)

subsection \<open>The invariant\<close>

lemma seed_ch_frame [simp]:
  "pkt (seed_ch F cfg reads i s) = pkt s"
  "length (filt (seed_ch F cfg reads i s)) = length (filt s)"
  "length (baseline (seed_ch F cfg reads i s)) = length (baseline s)"
  by (simp_all add: seed_ch_def Let_def)

lemma fold_seed_frame [simp]:
  "pkt (fold (seed_ch F cfg reads) [0..<k] s) = pkt s"
  "length (filt (fold (seed_ch F cfg reads) [0..<k] s)) = length (filt s)"
  "length (baseline (fold (seed_ch F cfg reads) [0..<k] s)) = length (baseline s)"
  by (induction k) simp_all

lemma sensor_inv_setup: "sensor_inv cfg (sensor_setup F cfg mac reads)"
  by (simp add: sensor_inv_def sensor_setup_def Let_def sensor_boot_def zero_packet_def)

lemma sensor_inv_loop:
  assumes "sensor_inv cfg s" "loop F cfg now tr s = (s', out)"
  shows "sensor_inv cfg s'"
proof (cases out)
  case None
  with assms show ?thesis
    by (simp add: sensor_inv_def loop_skipped)
next
  case (Some d)
  with assms(2) have "s' = fold (pack_ch F) [0..<nat (NUM_CH cfg)]
       ((fold (filter_ch F cfg tr) [0..<nat (NUM_CH cfg)] s)
          \<lparr> lastSend := now, pkt := (pkt s) \<lparr> pkt_ms := now, pkt_seq := seq s \<rparr>, seq := seq s + 1 \<rparr>)"
    by (auto simp: loop_def Let_def split: if_splits)
  with assms(1) show ?thesis
    by (simp add: sensor_inv_def)
qed

lemma sensor_inv_run:
  "sensor_inv cfg s \<Longrightarrow> run F cfg s ticks = (s', outs) \<Longrightarrow> sensor_inv cfg s'"
proof (induction ticks arbitrary: s s' outs)
  case Nil
  then show ?case by simp
next
  case (Cons t ticks)
  obtain now tr where t: "t = (now, tr)" by (cases t)
  obtain s1 out where l: "loop F cfg now tr s = (s1, out)" by (cases "loop F cfg now tr s")
  obtain s2 outs2 where r: "run F cfg s1 ticks = (s2, outs2)" by (cases "run F cfg s1 ticks")
  from Cons.prems(2) t l r have "s' = s2" by simp
  with Cons.IH [OF sensor_inv_loop [OF Cons.prems(1) l] r] show ?case by simp
qed

subsection \<open>Runs\<close>

lemma run_seq:
  "run F cfg s ticks = (s', outs) \<Longrightarrow>
     seq s' = seq s + of_nat (length outs)
     \<and> (\<forall>k < length outs. wire_seq (outs ! k) = seq s + of_nat k)"
proof (induction ticks arbitrary: s s' outs)
  case Nil
  then show ?case by auto
next
  case (Cons t ticks)
  obtain now tr where t: "t = (now, tr)" by (cases t)
  obtain s1 out where l: "loop F cfg now tr s = (s1, out)" by (cases "loop F cfg now tr s")
  obtain s2 outs2 where r: "run F cfg s1 ticks = (s2, outs2)" by (cases "run F cfg s1 ticks")
  note IH = Cons.IH [OF r]
  show ?case
  proof (cases out)
    case None
    with Cons.prems t l r have "s' = s2" "outs = outs2" by simp_all
    with IH loop_skipped(1) [OF l [unfolded None]] show ?thesis by simp
  next
    case (Some d)
    with Cons.prems t l r have eq: "s' = s2" "outs = d # outs2" by simp_all
    note ls = loop_sent [OF l [unfolded Some]]
    have d: "wire_seq d = seq s"
      using ls by (simp add: wire_transmit)
    show ?thesis
    proof (intro conjI allI impI)
      show "seq s' = seq s + of_nat (length outs)"
        using IH ls(1) eq by simp
    next
      fix k assume "k < length outs"
      then show "wire_seq (outs ! k) = seq s + of_nat k"
        using IH ls(1) eq d by (cases k) simp_all
    qed
  qed
qed

lemma run_ms:
  "run F cfg s ticks = (s', outs) \<Longrightarrow> sorted_wrt (\<le>) (map fst ticks) \<Longrightarrow>
     sorted_wrt (\<le>) (map wire_ms outs) \<and> set (map wire_ms outs) \<subseteq> set (map fst ticks)"
proof (induction ticks arbitrary: s s' outs)
  case Nil
  then show ?case by auto
next
  case (Cons t ticks)
  obtain now tr where t: "t = (now, tr)" by (cases t)
  obtain s1 out where l: "loop F cfg now tr s = (s1, out)" by (cases "loop F cfg now tr s")
  obtain s2 outs2 where r: "run F cfg s1 ticks = (s2, outs2)" by (cases "run F cfg s1 ticks")
  from Cons.prems(2) have sorted: "sorted_wrt (\<le>) (map fst ticks)"
    and least: "\<forall>x \<in> set (map fst ticks). now \<le> x"
    using t by simp_all
  note IH = Cons.IH [OF r sorted]
  show ?case
  proof (cases out)
    case None
    with Cons.prems t l r have "outs = outs2" by simp
    with IH show ?thesis by auto
  next
    case (Some d)
    with Cons.prems t l r have eq: "outs = d # outs2" by simp
    have d: "wire_ms d = now"
      using loop_sent [OF l [unfolded Some]] by (simp add: wire_transmit)
    from IH least have "\<forall>x \<in> set (map wire_ms outs2). now \<le> x" by blast
    with IH d eq t show ?thesis by auto
  qed
qed

lemma run_ms_subseq:
  "run F cfg s ticks = (s', outs) \<Longrightarrow> subseq (map wire_ms outs) (map fst ticks)"
proof (induction ticks arbitrary: s s' outs)
  case Nil
  then show ?case by auto
next
  case (Cons t ticks)
  obtain now tr where t: "t = (now, tr)" by (cases t)
  obtain s1 out where l: "loop F cfg now tr s = (s1, out)" by (cases "loop F cfg now tr s")
  obtain s2 outs2 where r: "run F cfg s1 ticks = (s2, outs2)" by (cases "run F cfg s1 ticks")
  note IH = Cons.IH [OF r]
  show ?case
  proof (cases out)
    case None
    with Cons.prems t l r have "outs = outs2" by simp
    with IH t show ?thesis by (auto intro: list_emb_Cons)
  next
    case (Some d)
    with Cons.prems t l r have eq: "outs = d # outs2" by simp
    have d: "wire_ms d = now"
      using loop_sent [OF l [unfolded Some]] by (simp add: wire_transmit)
    with IH eq t show ?thesis by simp
  qed
qed

lemma run_sends:
  "run F cfg s ticks = (s', outs) \<Longrightarrow> d \<in> set outs \<Longrightarrow> sensor_inv cfg s \<Longrightarrow>
     \<exists>s1 s2 now tr. sensor_inv cfg s1 \<and> loop F cfg now tr s1 = (s2, Some d)"
proof (induction ticks arbitrary: s s' outs)
  case Nil
  then show ?case by simp
next
  case (Cons t ticks)
  obtain now tr where t: "t = (now, tr)" by (cases t)
  obtain s1 out where l: "loop F cfg now tr s = (s1, out)" by (cases "loop F cfg now tr s")
  obtain s2 outs2 where r: "run F cfg s1 ticks = (s2, outs2)" by (cases "run F cfg s1 ticks")
  note inv1 = sensor_inv_loop [OF Cons.prems(3) l]
  show ?case
  proof (cases "d \<in> set outs2")
    case True
    from Cons.IH [OF r True inv1] show ?thesis .
  next
    case False
    with Cons.prems(1,2) t l r have "out = Some d"
      by (cases out) auto
    with l Cons.prems(3) show ?thesis by blast
  qed
qed

lemma run_all_sent:
  "periodMs cfg = 0 \<Longrightarrow> length (snd (run F cfg s ticks)) = length ticks"
proof (induction ticks arbitrary: s)
  case Nil
  then show ?case by simp
next
  case (Cons t ticks)
  obtain now tr where t: "t = (now, tr)" by (cases t)
  obtain s1 out where l: "loop F cfg now tr s = (s1, out)" by (cases "loop F cfg now tr s")
  obtain s2 outs2 where r: "run F cfg s1 ticks = (s2, outs2)" by (cases "run F cfg s1 ticks")
  from l Cons.prems obtain d where "out = Some d"
    by (auto simp: loop_def Let_def)
  with Cons.IH [OF Cons.prems, of s1] t l r show ?case by simp
qed

section \<open>Lemmas about the hub\<close>

subsection \<open>Printed numbers\<close>

lemma digit_char_dec: "d < 10 \<Longrightarrow> digit_char d \<in> set ''0123456789''"
proof -
  assume "d < 10"
  then have "digit_char d = ''0123456789'' ! d"
    unfolding digit_char_def
    using nth_append [of "''0123456789''" "''ABCDEF''" d] by simp
  moreover have "''0123456789'' ! d \<in> set ''0123456789''"
    using \<open>d < 10\<close> by (intro nth_mem) simp
  ultimately show ?thesis by simp
qed

lemma digit_char_hex: "d < 16 \<Longrightarrow> digit_char d \<in> set ''0123456789ABCDEF''"
  unfolding digit_char_def by (intro nth_mem) simp

lemma digit_char_zero: "d < 10 \<Longrightarrow> digit_char d = CHR ''0'' \<longleftrightarrow> d = 0"
proof -
  assume "d < 10"
  then have "d \<in> set [0..<10]" by simp
  moreover have "\<forall>d \<in> set [0..<10]. (digit_char d = CHR ''0'') = (d = 0)"
    by code_simp
  ultimately show ?thesis by blast
qed

lemma printNumber_digits: "set (printNumber k) \<subseteq> set ''0123456789''"
proof (induction k rule: printNumber.induct)
  case (1 k)
  show ?case
  proof (cases "k < 10")
    case True
    then show ?thesis
      using digit_char_dec [of k] by (subst printNumber.simps) simp
  next
    case False
    have "k mod 10 < 10" by simp
    from digit_char_dec [OF this] 1 [OF False] False show ?thesis
      by (subst printNumber.simps) simp
  qed
qed

lemma printNumber_nonempty: "printNumber k \<noteq> []"
  by (subst printNumber.simps) simp

lemma printNumber_hd: "hd (printNumber k) = CHR ''0'' \<Longrightarrow> k = 0"
proof (induction k rule: printNumber.induct)
  case (1 k)
  show ?case
  proof (cases "k < 10")
    case True
    with 1(2) show ?thesis
      using digit_char_zero [of k] by (subst (asm) printNumber.simps) simp
  next
    case False
    with 1(2) have "hd (printNumber (k div 10)) = CHR ''0''"
      by (subst (asm) printNumber.simps) (simp add: printNumber_nonempty)
    from 1(1) [OF False this] False show ?thesis by simp
  qed
qed

lemma printNumber_zero: "printNumber 0 = ''0''"
  by (subst printNumber.simps) (simp add: digit_char_def)

lemma is_decimal_printNumber: "is_decimal (printNumber k)"
  unfolding is_decimal_def
proof (intro conjI impI)
  show "printNumber k \<noteq> []"
    by (rule printNumber_nonempty)
  have "\<forall>c \<in> set (printNumber k). c \<in> set ''0123456789''"
    using printNumber_digits [of k] by blast
  then show "list_all (\<lambda>c. c \<in> set ''0123456789'') (printNumber k)"
    by (simp only: list_all_iff)
  assume "hd (printNumber k) = CHR ''0''"
  then have "k = 0" by (rule printNumber_hd)
  then show "printNumber k = ''0''" by (simp only: printNumber_zero)
qed

lemma is_decimal_print_int: "0 \<le> k \<Longrightarrow> is_decimal (print_int k)"
  by (simp add: print_int_def is_decimal_printNumber)

lemma print_int_uint: "print_int (uint w) = printNumber (unat w)"
  by (simp add: print_int_def)

lemma is_decimal_no_comma:
  assumes "is_decimal f"
  shows "CHR '','' \<notin> set f" and "CHR 0x0A \<notin> set f"
proof -
  from assms have "list_all (\<lambda>c. c \<in> set ''0123456789'') f"
    unfolding is_decimal_def by (elim conjE)
  then have "\<forall>c \<in> set f. c \<in> set ''0123456789''"
    by (simp only: list_all_iff)
  then have sub: "set f \<subseteq> set ''0123456789''"
    by blast
  have "CHR '','' \<notin> set ''0123456789''" "CHR 0x0A \<notin> set ''0123456789''"
    by simp_all
  with sub show "CHR '','' \<notin> set f" and "CHR 0x0A \<notin> set f"
    by blast+
qed

lemma print_02X_hex: "length (print_02X b) = 2" "set (print_02X b) \<subseteq> set ''0123456789ABCDEF''"
proof -
  show "length (print_02X b) = 2" by (simp add: print_02X_def)
  have "unat b < 2 ^ LENGTH(8)" by (rule unsigned_less)
  then have "unat b < 256" by simp
  then have "unat b div 16 < 16" "unat b mod 16 < 16" by simp_all
  from digit_char_hex [OF this(1)] digit_char_hex [OF this(2)]
  show "set (print_02X b) \<subseteq> set ''0123456789ABCDEF''"
    by (simp add: print_02X_def)
qed

subsection \<open>The channel loop\<close>

lemma print_channels_eq:
  "print_channels p i
     = concat (map (\<lambda>j. CHR '','' # printNumber (unat (pkt_v p ! j))) [i..<min (unat (pkt_n p)) 32])"
proof (induction p i rule: print_channels.induct)
  case (1 p i)
  show ?case
  proof (cases "i < unat (pkt_n p) \<and> i < 32")
    case True
    then have "[i..<min (unat (pkt_n p)) 32] = i # [Suc i..<min (unat (pkt_n p)) 32]"
      by (simp add: upt_conv_Cons)
    with 1 [OF True] True show ?thesis
      by (subst print_channels.simps) (simp add: print_int_uint)
  next
    case False
    then show ?thesis
      by (subst print_channels.simps) auto
  qed
qed

subsection \<open>Reading the fields back\<close>

lemma split_on_plain: "c \<notin> set f \<Longrightarrow> split_on c f = [f]"
  by (induction f) auto

lemma split_on_sep: "c \<notin> set f \<Longrightarrow> split_on c (f @ c # rest) = f # split_on c rest"
  by (induction f) auto

lemma split_on_join:
  "\<forall>f \<in> set (f0 # fs). c \<notin> set f \<Longrightarrow> split_on c (f0 @ concat (map ((#) c) fs)) = f0 # fs"
proof (induction fs arbitrary: f0)
  case Nil
  then show ?case by (simp add: split_on_plain)
next
  case (Cons g fs)
  from Cons.prems have "c \<notin> set f0" and rest: "\<forall>f \<in> set (g # fs). c \<notin> set f"
    by simp_all
  from split_on_sep [OF this(1)] Cons.IH [OF rest] show ?case
    by simp
qed

lemma takeWhile_line: "x \<notin> set l \<Longrightarrow> takeWhile (\<lambda>c. c \<noteq> x) (l @ [x]) = l"
  by (induction l) auto

subsection \<open>Membership in the language of the line format\<close>








lemma concat_02X_hex:
  "length (concat (map (\<lambda>j. print_02X (f j)) [0..<k])) = 2 * k"
  "set (concat (map (\<lambda>j. print_02X (f j)) [0..<k])) \<subseteq> set ''0123456789ABCDEF''"
proof -
  show "length (concat (map (\<lambda>j. print_02X (f j)) [0..<k])) = 2 * k"
    by (induction k) (simp_all add: print_02X_hex(1))
  have "set (print_02X (f j)) \<subseteq> set ''0123456789ABCDEF''" for j
    by (rule print_02X_hex(2))
  then show "set (concat (map (\<lambda>j. print_02X (f j)) [0..<k])) \<subseteq> set ''0123456789ABCDEF''"
    by (induction k) simp_all
qed

subsection \<open>The emitted line\<close>

lemma concat_02X_6:
  "concat (map (\<lambda>j. print_02X (m ! j)) [0..<6])
     = print_02X (m ! 0) @ print_02X (m ! 1) @ print_02X (m ! 2)
       @ print_02X (m ! 3) @ print_02X (m ! 4) @ print_02X (m ! 5)"
proof -
  have "[0..<6] = [0, 1, 2, 3, 4, 5 :: nat]" by code_simp
  then show ?thesis by simp
qed

lemma concat_02X_3:
  "concat (map (\<lambda>j. print_02X (m ! j)) [0..<3])
     = print_02X (m ! 0) @ print_02X (m ! 1) @ print_02X (m ! 2)"
proof -
  have "[0..<3] = [0, 1, 2 :: nat]" by code_simp
  then show ?thesis by simp
qed

lemma hub_loop_line:
  assumes "pktReady h"
  shows "snd (hub_loop h)
           = ''touch'' @ concat (map ((#) CHR '','') (printed_fields (hub_pkt h) (lastSender h)))
             @ [CHR 0x0A]"
proof -
  have m: "take 6 (lastSender h) ! j = lastSender h ! j" if "j < 6" for j
    using that by simp
  show ?thesis
    using assms
    by (simp add: hub_loop_def Let_def printed_fields_def concat_02X_6 concat_02X_3
          print_channels_eq print_int_uint m comp_def del: upt_Suc)
qed

lemma printed_fields_plain:
  assumes "f \<in> set (''touch'' # printed_fields p m)"
  shows "CHR '','' \<notin> set f" and "CHR 0x0A \<notin> set f"
proof -
  have hex: "set x \<subseteq> set ''0123456789ABCDEF'' \<Longrightarrow> CHR '','' \<notin> set x \<and> CHR 0x0A \<notin> set x" for x
  proof -
    assume sub: "set x \<subseteq> set ''0123456789ABCDEF''"
    have "CHR '','' \<notin> set ''0123456789ABCDEF''" "CHR 0x0A \<notin> set ''0123456789ABCDEF''"
      by simp_all
    with sub show ?thesis by blast
  qed
  have dec: "CHR '','' \<notin> set (printNumber k) \<and> CHR 0x0A \<notin> set (printNumber k)" for k
    using is_decimal_no_comma [OF is_decimal_printNumber [of k]] by simp
  from assms consider "f = ''touch''"
    | "f = concat (map (\<lambda>j. print_02X (m ! j)) [0..<6])"
    | "f = concat (map (\<lambda>j. print_02X (pkt_id p ! j)) [0..<3])"
    | k where "f = printNumber k"
    unfolding printed_fields_def by auto
  then have "CHR '','' \<notin> set f \<and> CHR 0x0A \<notin> set f"
  proof cases
    case 1
    then show ?thesis by simp
  next
    case 2
    then show ?thesis using hex [OF concat_02X_hex(2) [of "\<lambda>j. m ! j" 6]] by simp
  next
    case 3
    then show ?thesis using hex [OF concat_02X_hex(2) [of "\<lambda>j. pkt_id p ! j" 3]] by simp
  next
    case 4
    then show ?thesis using dec by simp
  qed
  then show "CHR '','' \<notin> set f" and "CHR 0x0A \<notin> set f" by simp_all
qed

lemma hub_loop_fields:
  assumes "pktReady h"
  shows "line_fields (snd (hub_loop h)) = ''touch'' # printed_fields (hub_pkt h) (lastSender h)"
proof -
  let ?fs = "printed_fields (hub_pkt h) (lastSender h)"
  let ?body = "''touch'' @ concat (map ((#) CHR '','') ?fs)"
  have plain: "\<forall>f \<in> set (''touch'' # ?fs). CHR '','' \<notin> set f"
    using printed_fields_plain(1) by blast
  have "CHR 0x0A \<notin> set ?body"
    using printed_fields_plain(2) [of _ "hub_pkt h" "lastSender h"] by auto
  then have "takeWhile (\<lambda>c. c \<noteq> CHR 0x0A) (?body @ [CHR 0x0A]) = ?body"
    by (rule takeWhile_line)
  then have "line_fields (snd (hub_loop h)) = split_on CHR '','' ?body"
    unfolding line_fields_def hub_loop_line [OF assms] by simp
  also have "\<dots> = ''touch'' # ?fs"
    using plain by (rule split_on_join)
  finally show ?thesis .
qed

lemma channel_fields_hub_loop:
  assumes "pktReady h"
  shows "channel_fields (snd (hub_loop h))
           = map (\<lambda>j. printNumber (unat (pkt_v (hub_pkt h) ! j))) [0..<min (unat (pkt_n (hub_pkt h))) 32]"
  unfolding channel_fields_def hub_loop_fields [OF assms]
  by (simp add: printed_fields_def)


subsection \<open>What a delivery leaves in the mailbox\<close>

lemma deliver_accepts:
  assumes "11 \<le> length data"
  shows "pktReady (deliver mac data h)"
    and "hub_pkt (deliver mac data h)
           = of_bytes (memcpy (to_bytes (hub_pkt h)) data (min (length data) 75))"
    and "lastSender (deliver mac data h) = memcpy (lastSender h) mac 6"
  using assms
  by (simp_all add: deliver_def onRecv_def sizeof_TouchPacket_def HEADER_LEN_def MAX_CH_def
        min_def)

lemma mailbox_new:
  "j < length data \<Longrightarrow> j < 75 \<Longrightarrow>
     memcpy (to_bytes p) data (min (length data) 75) ! j = data ! j"
  by (rule memcpy_nth_new) simp_all

lemma mailbox_old:
  "length data \<le> j \<Longrightarrow>
     memcpy (to_bytes p) data (min (length data) 75) ! j = to_bytes p ! j"
  by (rule memcpy_nth_old) simp_all

lemma deliver_n:
  assumes "11 \<le> length data"
  shows "pkt_n (hub_pkt (deliver mac data h)) = data ! 1"
  using assms mailbox_new [of 1 data "hub_pkt h"]
  by (simp add: deliver_accepts(2) of_bytes_def)

lemma deliver_v_new:
  assumes "11 \<le> length data" "i < 32" "11 + 2 * i + 1 < length data"
  shows "pkt_v (hub_pkt (deliver mac data h)) ! i = from_le16 (data ! (11 + 2 * i)) (data ! (11 + 2 * i + 1))"
proof -
  have "11 + 2 * i < length data" "11 + 2 * i < 75" "11 + 2 * i + 1 < 75"
    using assms by simp_all
  with assms(3) show ?thesis
    by (simp only: deliver_accepts(2) [OF assms(1)] of_bytes_channel [OF assms(2)] mailbox_new)
qed

lemma deliver_v_old:
  assumes "11 \<le> length data" "i < 32" "length data \<le> 11 + 2 * i"
  shows "pkt_v (hub_pkt (deliver mac data h)) ! i = pkt_v (hub_pkt h) ! i"
proof -
  have "length data \<le> 11 + 2 * i + 1"
    using assms by simp
  with assms(3) show ?thesis
    by (simp only: deliver_accepts(2) [OF assms(1)] of_bytes_channel [OF assms(2)] mailbox_old
          to_bytes_channel [OF assms(2)] from_le16_le16)
qed

lemma nth3: "length xs = 3 \<Longrightarrow> [xs ! 0, xs ! 1, xs ! 2] = xs"
  by (cases xs; cases "tl xs"; cases "tl (tl xs)") auto

lemma deliver_header:
  assumes "11 \<le> length data"
  shows "pkt_ver (hub_pkt (deliver mac data h)) = data ! 0"
    and "pkt_id (hub_pkt (deliver mac data h)) = [data ! 2, data ! 3, data ! 4]"
    and "pkt_seq (hub_pkt (deliver mac data h)) = from_le16 (data ! 5) (data ! 6)"
    and "pkt_ms (hub_pkt (deliver mac data h)) = from_le32 (data ! 7) (data ! 8) (data ! 9) (data ! 10)"
proof -
  have nth: "memcpy (to_bytes (hub_pkt h)) data (min (length data) 75) ! j = data ! j" if "j < 11" for j
    using that assms by (intro mailbox_new) simp_all
  show "pkt_ver (hub_pkt (deliver mac data h)) = data ! 0"
    and "pkt_id (hub_pkt (deliver mac data h)) = [data ! 2, data ! 3, data ! 4]"
    and "pkt_seq (hub_pkt (deliver mac data h)) = from_le16 (data ! 5) (data ! 6)"
    and "pkt_ms (hub_pkt (deliver mac data h)) = from_le32 (data ! 7) (data ! 8) (data ! 9) (data ! 10)"
    by (simp_all add: deliver_accepts(2) [OF assms] of_bytes_def nth)
qed

section \<open>Properties of the specification\<close>

subsection \<open>Hub: undersize datagrams\<close>

text \<open>
  Claim C6. When the receive callback is invoked with a payload length below 11 (the fixed
  header), it leaves the mailbox, the stored sender MAC and the ready flag as they were;
  the main loop then does exactly what it would have done without the callback, so no
  line is emitted for that datagram: with nothing pending, nothing is written at all.
\<close>

theorem onRecv_short_dropped:
  assumes "len < 11"
  shows "hub_pkt (onRecv mac data len h) = hub_pkt h
       \<and> lastSender (onRecv mac data len h) = lastSender h
       \<and> pktReady (onRecv mac data len h) = pktReady h
       \<and> hub_loop (onRecv mac data len h) = hub_loop h
       \<and> (\<not> pktReady h \<longrightarrow> snd (hub_loop (onRecv mac data len h)) = [])"
  using assms by (simp add: onRecv_def hub_loop_def)

text \<open>A 10-byte payload delivered to the freshly booted hub.\<close>

theorem onRecv_short_dropped_witness:
  "(10::int) < 11
   \<and> hub_loop (onRecv [1,2,3,4,5,6] [1,4,0,0,0,0,0,0,0,0] 10 hub_boot) = (hub_boot, [])"
proof -
  have short: "(10::int) < 11" by simp
  from onRecv_short_dropped [OF short, of "[1,2,3,4,5,6]" "[1,4,0,0,0,0,0,0,0,0]" hub_boot]
  have "hub_loop (onRecv [1,2,3,4,5,6] [1,4,0,0,0,0,0,0,0,0] 10 hub_boot) = hub_loop hub_boot"
    by simp
  moreover have "hub_loop hub_boot = (hub_boot, [])"
    by (simp add: hub_loop_def hub_boot_def)
  ultimately show ?thesis by simp
qed

subsection \<open>Sensor: the filter\<close>

text \<open>
  Claim C7. On every tick of \<open>loop\<close>, whether or not it sends, and for every channel
  \<open>i < NUM_CH\<close>: the new \<open>filt[i]\<close> is \<open>(1 - LPF_ALPHA) * filt[i] + LPF_ALPHA * raw\<close> with
  \<open>raw\<close> the sample read from \<open>TOUCH_PINS[i]\<close> on this tick, and the new \<open>baseline[i]\<close> is
  \<open>(1 - BASELINE_ADAPT) * baseline[i] + BASELINE_ADAPT * filt[i]\<close> with the already updated
  \<open>filt[i]\<close>, not the raw sample. The operations are those of the target's \<open>float\<close>
  (the parameter \<open>F\<close>), with \<open>LPF_ALPHA\<close> the literal 0.2 and \<open>BASELINE_ADAPT\<close> the literal
  0.0015. The hypothesis \<open>sensor_inv\<close> holds after \<open>setup\<close> and after every tick
  (\<open>sensor_inv_setup\<close>, \<open>sensor_inv_run\<close>).
\<close>

theorem filter_update:
  assumes "sensor_inv cfg s" and "loop F cfg now touchRead s = (s', out)"
    and "i < nat (NUM_CH cfg)"
  shows "filt s' ! i
           = fadd F (fmul F (fsub F (flit F 1) (LPF_ALPHA F)) (filt s ! i))
                    (fmul F (LPF_ALPHA F) (f_of_int F (touchRead (TOUCH_PINS cfg ! i))))
       \<and> baseline s' ! i
           = fadd F (fmul F (fsub F (flit F 1) (BASELINE_ADAPT F)) (baseline s ! i))
                    (fmul F (BASELINE_ADAPT F) (filt s' ! i))"
proof -
  have len: "nat (NUM_CH cfg) \<le> length (filt s)" "nat (NUM_CH cfg) \<le> length (baseline s)"
    using assms(1) NUM_CH_range [of cfg] by (simp_all add: sensor_inv_def MAX_CH_def)
  have eq: "filt s' = filt (fold (filter_ch F cfg touchRead) [0..<nat (NUM_CH cfg)] s)"
    "baseline s' = baseline (fold (filter_ch F cfg touchRead) [0..<nat (NUM_CH cfg)] s)"
    using assms(2) loop_sent(7,8) [of F cfg now touchRead s s'] loop_skipped(4,5) [of F cfg now touchRead s s']
    by (cases out; simp)+
  from fold_filter_nth [OF len, of i F cfg touchRead] assms(3) show ?thesis
    by (simp add: eq)
qed

text \<open>
  In exact arithmetic, from \<open>filt = baseline = 50\<close> and the sample 13: the new \<open>filt\<close> is
  \<open>0.8 * 50 + 0.2 * 13\<close> and the new baseline uses that value.
\<close>

theorem filter_update_witness:
  "sensor_inv one_pin wrap_state \<and> 0 < nat (NUM_CH one_pin)
   \<and> filt wrap_state ! 0 = 50 \<and> baseline wrap_state ! 0 = 50 \<and> TOUCH_PINS one_pin ! 0 = 4
   \<and> filt (fst (loop exact_fpu one_pin 10 (\<lambda>pin. 13) wrap_state)) ! 0 = (1 - 2 / 10) * 50 + 2 / 10 * 13
   \<and> baseline (fst (loop exact_fpu one_pin 10 (\<lambda>pin. 13) wrap_state)) ! 0
        = (1 - 15 / 10000) * 50 + 15 / 10000 * ((1 - 2 / 10) * 50 + 2 / 10 * 13)"
proof -
  let ?l = "loop exact_fpu one_pin 10 (\<lambda>pin. 13) wrap_state"
  have inv: "sensor_inv one_pin wrap_state" by code_simp
  have l: "?l = (fst ?l, snd ?l)" by simp
  have i: "0 < nat (NUM_CH one_pin)" by code_simp
  have old: "filt wrap_state ! 0 = 50" "baseline wrap_state ! 0 = 50" "TOUCH_PINS one_pin ! 0 = 4"
    by (simp_all add: wrap_state_def one_pin_def MAX_CH_def)
  from filter_update [OF inv l i] old inv i show ?thesis
    by (simp add: exact_fpu_def LPF_ALPHA_def BASELINE_ADAPT_def)
qed

subsection \<open>Sensor: the datagram\<close>

text \<open>
  Claim C4. For every datagram the sensor transmits and every channel \<open>i < n\<close>, the value
  on the wire is \<open>lroundf(filt[i])\<close> clamped into \<open>[0, 65535]\<close> (so it lies in that range,
  and the cast to \<open>uint16_t\<close> loses nothing); when \<open>filt[i]\<close> is the finite number \<open>r\<close> and
  its rounding fits a \<open>long\<close>, that is \<open>r\<close> rounded to the nearest integer, then clamped.
  Here \<open>filt\<close> is the filter state after this tick's update, which is what the packing
  loop reads.
\<close>

theorem wire_values_clamped:
  assumes "sensor_inv cfg s" and "loop F cfg now touchRead s = (s', Some d)"
    and "i < nat (NUM_CH cfg)"
  shows "uint (wire_v d i) = clamp_u16 (lroundf F (filt s' ! i))
       \<and> 0 \<le> uint (wire_v d i) \<and> uint (wire_v d i) \<le> 65535
       \<and> (fval F (filt s' ! i) = Some r \<and> - (2 ^ 31) \<le> round_half_away r
                \<and> round_half_away r < 2 ^ 31
              \<longrightarrow> uint (wire_v d i) = max 0 (min 65535 (round_half_away r)))"
proof -
  note ls = loop_sent [OF assms(2)]
  have n: "unat (pkt_n (pkt s')) = nat (NUM_CH cfg)"
    using ls(4) assms(1) by (simp add: sensor_inv_def unat_NUM_CH)
  have i32: "i < 32"
    using assms(3) NUM_CH_range [of cfg] by simp
  have len: "nat (NUM_CH cfg) \<le> length (pkt_v (pkt s))"
    using assms(1) NUM_CH_range [of cfg] by (simp add: sensor_inv_def MAX_CH_def)
  have "wire_v d i = pkt_v (pkt s') ! i"
    using ls(5) n assms(3) i32 by (simp add: wire_v_transmit)
  also have "\<dots> = word_of_int (clamp_u16 (lroundf F (filt s' ! i)))"
    using loop_sent_v [OF assms(2) len, of i] assms(3) by simp
  finally have v: "uint (wire_v d i) = clamp_u16 (lroundf F (filt s' ! i))"
    by (simp only: uint_clamp_u16)
  have r: "uint (wire_v d i) = max 0 (min 65535 (round_half_away r))"
    if "fval F (filt s' ! i) = Some r" "- (2 ^ 31) \<le> round_half_away r" "round_half_away r < 2 ^ 31"
    using that v by (simp add: lroundf_def Let_def clamp_u16_eq)
  from v r clamp_u16_range [of "lroundf F (filt s' ! i)"] show ?thesis
    by simp
qed

text \<open>The filtered value 42.6 goes on the wire as 43.\<close>

theorem wire_values_clamped_witness:
  "sensor_inv one_pin wrap_state
   \<and> snd (loop exact_fpu one_pin 10 (\<lambda>pin. 13) wrap_state) = Some [1, 1, 0, 0, 0, 255, 255, 10, 0, 0, 0, 43, 0]
   \<and> 0 < nat (NUM_CH one_pin)
   \<and> filt (fst (loop exact_fpu one_pin 10 (\<lambda>pin. 13) wrap_state)) ! 0 = 426 / 10
   \<and> uint (wire_v [1, 1, 0, 0, 0, 255, 255, 10, 0, 0, 0, 43, 0] 0) = 43"
proof -
  let ?l = "loop exact_fpu one_pin 10 (\<lambda>pin. 13) wrap_state"
  let ?d = "[1, 1, 0, 0, 0, 255, 255, 10, 0, 0, 0, 43, 0 :: u8]"
  have inv: "sensor_inv one_pin wrap_state" by code_simp
  have out: "snd ?l = Some ?d" by code_simp
  then have l: "?l = (fst ?l, Some ?d)" by (metis prod.collapse)
  have i: "0 < nat (NUM_CH one_pin)" by code_simp
  have f: "filt (fst ?l) ! 0 = 426 / 10" by code_simp
  have rnd: "round_half_away (426 / 10) = 43" by (simp add: round_half_away_def)
  have fv: "fval exact_fpu (filt (fst ?l) ! 0) = Some (426 / 10)"
    unfolding f by (simp add: exact_fpu_def)
  have rng: "- (2 ^ 31) \<le> round_half_away (426 / 10)" "round_half_away (426 / 10) < 2 ^ 31"
    unfolding rnd by simp_all
  from wire_values_clamped [OF inv l i, of "426 / 10"] fv rng
  have "uint (wire_v ?d 0) = max 0 (min 65535 (round_half_away (426 / 10)))"
    by blast
  then have "uint (wire_v ?d 0) = 43"
    unfolding rnd by simp
  with inv out i f show ?thesis by blast
qed

text \<open>
  Claim C2. Every datagram sent in a run that starts from \<open>setup\<close> has \<open>11 + 2 n\<close> bytes,
  where \<open>n\<close> is its own \<open>n\<close> field, and that field is \<open>NUM_CH\<close>; with \<open>n < 32\<close> it is shorter
  than the struct, so it is not padded.
\<close>

theorem transmit_length:
  assumes "run F cfg (sensor_setup F cfg mac reads) ticks = (s', outs)" and "d \<in> set outs"
  shows "length d = 11 + 2 * unat (wire_n d)
       \<and> int (unat (wire_n d)) = NUM_CH cfg
       \<and> (unat (wire_n d) < 32 \<longrightarrow> length d < sizeof_TouchPacket)"
proof -
  from run_sends [OF assms sensor_inv_setup]
  obtain s1 s2 now tr where inv: "sensor_inv cfg s1" and l: "loop F cfg now tr s1 = (s2, Some d)"
    by blast
  note ls = loop_sent [OF l]
  have n: "pkt_n (pkt s2) = word_of_int (NUM_CH cfg)"
    using ls(4) inv by (simp add: sensor_inv_def)
  have w: "wire_n d = word_of_int (NUM_CH cfg)"
    using ls(5) n by (simp add: wire_transmit)
  have u: "unat (wire_n d) = nat (NUM_CH cfg)"
    using w by (simp add: unat_NUM_CH)
  have le: "nat (NUM_CH cfg) \<le> 32"
    using NUM_CH_range [of cfg] by simp
  have "length d = min (11 + 2 * nat (NUM_CH cfg)) 75"
    using ls(5) n by (simp add: length_transmit unat_NUM_CH)
  with le u NUM_CH_range [of cfg] show ?thesis
    by (simp add: sizeof_TouchPacket_def HEADER_LEN_def MAX_CH_def)
qed

text \<open>One wired pin: the datagram of the first tick has 13 bytes.\<close>

theorem transmit_length_witness:
  "run exact_fpu one_pin (sensor_setup exact_fpu one_pin [1,2,3,4,5,6] (\<lambda>pin k. 5)) [(10, \<lambda>pin. 5)]
     = (fst (run exact_fpu one_pin (sensor_setup exact_fpu one_pin [1,2,3,4,5,6] (\<lambda>pin k. 5)) [(10, \<lambda>pin. 5)]),
        [[1, 1, 4, 5, 6, 0, 0, 10, 0, 0, 0, 5, 0]])
   \<and> [1, 1, 4, 5, 6, 0, 0, 10, 0, 0, 0, 5, 0] \<in> set [[1, 1, 4, 5, 6, 0, 0, 10, 0, 0, 0, 5, 0 :: u8]]
   \<and> length [1, 1, 4, 5, 6, 0, 0, 10, 0, 0, 0, 5, 0 :: u8] = 11 + 2 * 1
   \<and> NUM_CH one_pin = 1"
proof -
  let ?r = "run exact_fpu one_pin (sensor_setup exact_fpu one_pin [1,2,3,4,5,6] (\<lambda>pin k. 5)) [(10, \<lambda>pin. 5)]"
  let ?d = "[1, 1, 4, 5, 6, 0, 0, 10, 0, 0, 0, 5, 0 :: u8]"
  have outs: "snd ?r = [?d]" by code_simp
  then have r: "?r = (fst ?r, [?d])" by (metis prod.collapse)
  have m: "?d \<in> set [?d]" by simp
  from transmit_length [OF r m]
  have "length ?d = 11 + 2 * unat (wire_n ?d)" "int (unat (wire_n ?d)) = NUM_CH one_pin"
    by blast+
  moreover have "wire_n ?d = 1" by (simp add: wire_n_def)
  ultimately show ?thesis using r by simp
qed

text \<open>
  Claim C5. Of two datagrams transmitted one after the other in a run of the sensor, the
  later carries the \<open>seq\<close> of the earlier plus 1 modulo \<open>2^16\<close>, however many ticks without a
  send lie between them; and when the clock readings of the ticks are non-decreasing, so
  is \<open>ms\<close>. In every run, a wrap of the 32-bit clock included, the \<open>ms\<close> fields of the
  datagrams are the clock readings of the sending ticks, in the order of the ticks.
\<close>

theorem seq_increments:
  assumes "run F cfg s ticks = (s', outs)" and "Suc k < length outs"
  shows "wire_seq (outs ! Suc k) = wire_seq (outs ! k) + 1
       \<and> unat (wire_seq (outs ! Suc k)) = (unat (wire_seq (outs ! k)) + 1) mod 2 ^ 16
       \<and> (sorted_wrt (\<le>) (map fst ticks) \<longrightarrow> wire_ms (outs ! k) \<le> wire_ms (outs ! Suc k))
       \<and> subseq (map wire_ms outs) (map fst ticks)"
proof -
  from run_seq [OF assms(1)] assms(2)
  have a: "wire_seq (outs ! Suc k) = wire_seq (outs ! k) + 1"
    by simp
  have b: "unat (wire_seq (outs ! k) + 1) = (unat (wire_seq (outs ! k)) + 1) mod 2 ^ 16"
    by (simp add: unat_word_ariths)
  have c: "wire_ms (outs ! k) \<le> wire_ms (outs ! Suc k)" if "sorted_wrt (\<le>) (map fst ticks)"
  proof -
    from run_ms [OF assms(1) that] have "sorted_wrt (\<le>) (map wire_ms outs)" by simp
    then have "map wire_ms outs ! k \<le> map wire_ms outs ! Suc k"
      using assms(2) by (intro sorted_nth_mono) simp_all
    then show ?thesis using assms(2) by simp
  qed
  note d = run_ms_subseq [OF assms(1)]
  from a b c d show ?thesis by simp
qed

text \<open>The counter wraps from 65535 to 0 between the first and the second datagram.\<close>

theorem seq_increments_witness:
  "Suc 0 < length (snd (run exact_fpu one_pin wrap_state three_ticks))
   \<and> sorted_wrt (\<le>) (map fst three_ticks)
   \<and> wire_seq (snd (run exact_fpu one_pin wrap_state three_ticks) ! 0) = 65535
   \<and> wire_seq (snd (run exact_fpu one_pin wrap_state three_ticks) ! Suc 0) = 0
   \<and> wire_ms (snd (run exact_fpu one_pin wrap_state three_ticks) ! 0)
       \<le> wire_ms (snd (run exact_fpu one_pin wrap_state three_ticks) ! Suc 0)"
proof -
  let ?r = "run exact_fpu one_pin wrap_state three_ticks"
  have r: "?r = (fst ?r, snd ?r)" by simp
  have len: "Suc 0 < length (snd ?r)" by code_simp
  have srt: "sorted_wrt (\<le>) (map fst three_ticks)" by code_simp
  have first: "wire_seq (snd ?r ! 0) = 65535" by code_simp
  from seq_increments [OF r len] srt first
  have "wire_seq (snd ?r ! Suc 0) = 65535 + 1" "wire_ms (snd ?r ! 0) \<le> wire_ms (snd ?r ! Suc 0)"
    by simp_all
  with len srt first show ?thesis by simp
qed

subsection \<open>Sensor: the send period\<close>

text \<open>
  Claim C10. For every \<open>TARGET_HZ\<close> above 1000 the integer division \<open>1000 / TARGET_HZ\<close> is 0,
  so \<open>periodMs\<close> is 0, every tick sends, and a tick does exactly what it does with
  \<open>TARGET_HZ = 0\<close>.
\<close>

theorem periodMs_zero_above_1000:
  assumes "1000 < TARGET_HZ cfg"
  shows "periodMs cfg = 0
       \<and> (\<exists>s' d. loop F cfg now tr s = (s', Some d))
       \<and> loop F cfg now tr s = loop F (cfg \<lparr> TARGET_HZ := 0 \<rparr>) now tr s
       \<and> length (snd (run F cfg s ticks)) = length ticks"
proof -
  have "unat (1000 div TARGET_HZ cfg) = unat (1000 :: u32) div unat (TARGET_HZ cfg)"
    by (rule unat_div)
  moreover have "unat (1000 :: u32) < unat (TARGET_HZ cfg)"
    using assms by (simp only: word_less_nat_alt)
  ultimately have "unat (1000 div TARGET_HZ cfg) = 0"
    by simp
  then have "1000 div TARGET_HZ cfg = 0"
    by (simp add: unat_eq_0)
  then have p: "periodMs cfg = 0"
    by (simp add: periodMs_def)
  have p0: "periodMs (cfg \<lparr> TARGET_HZ := 0 \<rparr>) = 0"
    by (simp add: periodMs_def)
  have f: "filter_ch F (cfg \<lparr> TARGET_HZ := 0 \<rparr>) tr = filter_ch F cfg tr"
    by (intro ext) (simp add: filter_ch_def)
  have n: "NUM_CH (cfg \<lparr> TARGET_HZ := 0 \<rparr>) = NUM_CH cfg"
    by (simp add: NUM_CH_def)
  show ?thesis
    using p run_all_sent [OF p] by (simp add: loop_def Let_def p0 f n)
qed

text \<open>At 1001 Hz the period is 0; at 1000 Hz it is still 1 ms.\<close>

theorem periodMs_zero_above_1000_witness:
  "(1000 :: u32) < TARGET_HZ (sensor_config \<lparr> TARGET_HZ := 1001 \<rparr>)
   \<and> periodMs (sensor_config \<lparr> TARGET_HZ := 1001 \<rparr>) = 0
   \<and> periodMs (sensor_config \<lparr> TARGET_HZ := 1000 \<rparr>) = 1"
proof -
  have h: "(1000 :: u32) < TARGET_HZ (sensor_config \<lparr> TARGET_HZ := 1001 \<rparr>)"
    by simp
  from periodMs_zero_above_1000 [OF h]
  have "periodMs (sensor_config \<lparr> TARGET_HZ := 1001 \<rparr>) = 0" by blast
  moreover have "periodMs (sensor_config \<lparr> TARGET_HZ := 1000 \<rparr>) = 1"
    by (simp add: periodMs_def)
  ultimately show ?thesis using h by simp
qed

subsection \<open>Hub: the serial line\<close>



text \<open>
  Claim C1. For an accepted datagram that declares \<open>n > 32\<close> channels the specification asks
  for exactly 32 channel fields and for 32 in the \<open>n\<close> field of the line. The serialiser
  bounds its channel loop with \<open>i < 32\<close>, but \<open>Serial.print((int)p.n)\<close> prints the count as
  received: on the 100-byte datagram that declares 40 channels, delivered to the freshly
  booted hub, the line has 32 channel fields and its \<open>n\<close> field reads 40, so the line no
  longer has the form \<^verbatim>\<open><n>,v1,v2,...,vn\<close> that the comment above the serialiser documents.
\<close>

theorem oversize_n_not_clamped:
  "length oversize_datagram = 100 \<and> unat (oversize_datagram ! 1) = 40
   \<and> length (channel_fields (snd (hub_loop (deliver example_mac oversize_datagram hub_boot)))) = 32
   \<and> line_fields (snd (hub_loop (deliver example_mac oversize_datagram hub_boot))) ! 5 = ''40''"
proof -
  have len: "length oversize_datagram = 100"
    by (simp add: oversize_datagram_def)
  then have acc: "11 \<le> length oversize_datagram"
    by simp
  note ready = deliver_accepts(1) [OF acc, of example_mac hub_boot]
  have n: "unat (oversize_datagram ! 1) = 40"
    by (simp add: oversize_datagram_def)
  have stored: "unat (pkt_n (hub_pkt (deliver example_mac oversize_datagram hub_boot))) = 40"
    unfolding deliver_n [OF acc] by (rule n)
  have fields: "length (channel_fields (snd (hub_loop (deliver example_mac oversize_datagram hub_boot)))) = 32"
    unfolding channel_fields_hub_loop [OF ready] stored by simp
  have "line_fields (snd (hub_loop (deliver example_mac oversize_datagram hub_boot))) ! 5
          = printNumber (unat (pkt_n (hub_pkt (deliver example_mac oversize_datagram hub_boot))))"
    unfolding hub_loop_fields [OF ready] by (simp add: printed_fields_def)
  also have "\<dots> = ''40''"
    unfolding stored by (simp add: printNumber.simps digit_char_def)
  finally show ?thesis
    using len n fields by simp
qed

subsection \<open>Hub: payloads shorter than they declare\<close>

text \<open>
  Claim C9. The hub does not compare the payload length with the declared channel count.
  For an accepted datagram of fewer than \<open>11 + 2 min(n, 32)\<close> bytes the line still has
  \<open>min(n, 32)\<close> channel fields, and every channel whose two bytes lie at or beyond the payload
  length keeps the value the mailbox held before the datagram arrived, and is printed so.
\<close>

theorem short_payload_stale_values:
  assumes "11 \<le> length data" and "length data < 11 + 2 * min (unat (data ! 1)) 32"
  shows "length (channel_fields (snd (hub_loop (deliver mac data h)))) = min (unat (data ! 1)) 32
       \<and> (\<forall>i < min (unat (data ! 1)) 32. length data \<le> 11 + 2 * i \<longrightarrow>
            pkt_v (hub_pkt (deliver mac data h)) ! i = pkt_v (hub_pkt h) ! i
            \<and> channel_fields (snd (hub_loop (deliver mac data h))) ! i
                = printNumber (unat (pkt_v (hub_pkt h) ! i)))"
proof -
  note ready = deliver_accepts(1) [OF assms(1), of mac h]
  have n: "pkt_n (hub_pkt (deliver mac data h)) = data ! 1"
    by (rule deliver_n [OF assms(1)])
  have count: "length (channel_fields (snd (hub_loop (deliver mac data h)))) = min (unat (data ! 1)) 32"
    unfolding channel_fields_hub_loop [OF ready] n by simp
  have stale: "pkt_v (hub_pkt (deliver mac data h)) ! i = pkt_v (hub_pkt h) ! i
            \<and> channel_fields (snd (hub_loop (deliver mac data h))) ! i
                = printNumber (unat (pkt_v (hub_pkt h) ! i))"
    if "i < min (unat (data ! 1)) 32" "length data \<le> 11 + 2 * i" for i
  proof -
    from that(1) have i32: "i < 32" by simp
    note old = deliver_v_old [OF assms(1) i32 that(2), of mac h]
    have "channel_fields (snd (hub_loop (deliver mac data h))) ! i
            = printNumber (unat (pkt_v (hub_pkt (deliver mac data h)) ! i))"
      unfolding channel_fields_hub_loop [OF ready] n using that(1) by simp
    with old show ?thesis by simp
  qed
  from count stale show ?thesis by blast
qed

text \<open>
  A 13-byte datagram that declares 4 channels: the second channel field is \<open>0\<close> when it is the
  first datagram after boot, and \<open>5000\<close> when the mailbox still holds the datagram of the
  specification's first scenario.
\<close>

theorem short_payload_stale_values_witness:
  "11 \<le> length short_datagram
   \<and> length short_datagram < 11 + 2 * min (unat (short_datagram ! 1)) 32
   \<and> length (channel_fields (snd (hub_loop (deliver example_mac short_datagram hub_boot)))) = 4
   \<and> channel_fields (snd (hub_loop (deliver example_mac short_datagram hub_boot))) ! 1 = ''0''
   \<and> channel_fields (snd (hub_loop (deliver example_mac short_datagram
         \<lparr> pktReady = False, hub_pkt = example_packet, lastSender = example_mac \<rparr>))) ! 1 = ''5000''"
proof -
  let ?prev = "\<lparr> pktReady = False, hub_pkt = example_packet, lastSender = example_mac \<rparr>"
  have len: "11 \<le> length short_datagram"
    by (simp add: short_datagram_def)
  have n: "min (unat (short_datagram ! 1)) 32 = 4"
    by (simp add: short_datagram_def)
  have short: "length short_datagram < 11 + 2 * min (unat (short_datagram ! 1)) 32"
    unfolding n by (simp add: short_datagram_def)
  have i: "1 < min (unat (short_datagram ! 1)) 32" "length short_datagram \<le> 11 + 2 * 1"
    unfolding n by (simp_all add: short_datagram_def)
  have boot: "printNumber (unat (pkt_v (hub_pkt hub_boot) ! 1)) = ''0''"
    by (simp add: hub_boot_def zero_packet_def MAX_CH_def printNumber.simps digit_char_def)
  have prev: "printNumber (unat (pkt_v (hub_pkt ?prev) ! 1)) = ''5000''"
    by (simp add: example_packet_def printNumber.simps digit_char_def)
  from short_payload_stale_values [OF len short, of example_mac hub_boot] i boot
  have a: "length (channel_fields (snd (hub_loop (deliver example_mac short_datagram hub_boot)))) = 4"
    "channel_fields (snd (hub_loop (deliver example_mac short_datagram hub_boot))) ! 1 = ''0''"
    unfolding n by auto
  from short_payload_stale_values [OF len short, of example_mac ?prev] i prev
  have b: "channel_fields (snd (hub_loop (deliver example_mac short_datagram ?prev))) ! 1 = ''5000''"
    unfolding n by auto
  from len short a b show ?thesis by blast
qed

subsection \<open>Round trip over the wire\<close>

text \<open>
  Claim C3. A datagram with \<open>1 \<le> n \<le> 32\<close> (and arrays of the declared sizes), put on the wire
  by the sensor as \<open>11 + 2 n\<close> packed little-endian bytes and copied by the hub's receive
  callback into its mailbox, whatever the mailbox held, is read back with the same \<open>ver\<close>,
  \<open>n\<close>, \<open>id\<close>, \<open>seq\<close> and \<open>ms\<close> and the same \<open>n\<close> values \<open>v[0..n-1]\<close>; these are the channel
  values the serialiser prints.
\<close>

theorem datagram_round_trip:
  assumes "1 \<le> unat (pkt_n p)" and "unat (pkt_n p) \<le> 32"
    and "length (pkt_id p) = 3" and "length (pkt_v p) = MAX_CH"
  shows "length (transmit p) = 11 + 2 * unat (pkt_n p)
       \<and> pkt_ver (hub_pkt (deliver mac (transmit p) h)) = pkt_ver p
       \<and> pkt_n (hub_pkt (deliver mac (transmit p) h)) = pkt_n p
       \<and> pkt_id (hub_pkt (deliver mac (transmit p) h)) = pkt_id p
       \<and> pkt_seq (hub_pkt (deliver mac (transmit p) h)) = pkt_seq p
       \<and> pkt_ms (hub_pkt (deliver mac (transmit p) h)) = pkt_ms p
       \<and> take (unat (pkt_n p)) (pkt_v (hub_pkt (deliver mac (transmit p) h)))
           = take (unat (pkt_n p)) (pkt_v p)
       \<and> length (take (unat (pkt_n p)) (pkt_v (hub_pkt (deliver mac (transmit p) h)))) = unat (pkt_n p)
       \<and> channel_fields (snd (hub_loop (deliver mac (transmit p) h)))
           = map (\<lambda>w. printNumber (unat w)) (take (unat (pkt_n p)) (pkt_v p))"
proof -
  let ?d = "transmit p"
  let ?n = "unat (pkt_n p)"
  let ?q = "hub_pkt (deliver mac ?d h)"
  have len: "length ?d = 11 + 2 * ?n"
    using assms(2) by (simp add: length_transmit)
  then have acc: "11 \<le> length ?d"
    by simp
  have d: "?d ! j = to_bytes p ! j" if "j < 11" for j
    using that by (intro transmit_nth) simp
  note hd = deliver_header [OF acc, of mac h] deliver_n [OF acc, of mac h]
  have ver: "pkt_ver ?q = pkt_ver p" and n: "pkt_n ?q = pkt_n p"
    and seq: "pkt_seq ?q = pkt_seq p" and ms: "pkt_ms ?q = pkt_ms p"
    unfolding hd by (simp_all add: d to_bytes_header from_le16_le16 from_le32_le32)
  have "pkt_id ?q = [pkt_id p ! 0, pkt_id p ! 1, pkt_id p ! 2]"
    unfolding hd by (simp add: d to_bytes_header)
  then have id: "pkt_id ?q = pkt_id p"
    using assms(3) by (simp only: nth3)
  have v: "pkt_v ?q ! i = pkt_v p ! i" if "i < ?n" for i
  proof -
    from that assms(2) have i32: "i < 32" by simp
    from that have inside: "11 + 2 * i + 1 < length ?d" "11 + 2 * i < 11 + 2 * ?n"
        "11 + 2 * i + 1 < 11 + 2 * ?n"
      unfolding len by simp_all
    show ?thesis
      by (simp only: deliver_v_new [OF acc i32 inside(1)] transmit_nth [OF inside(2)]
            transmit_nth [OF inside(3)] to_bytes_channel [OF i32] from_le16_le16)
  qed
  have lq: "length (pkt_v ?q) = 32"
    by (simp add: deliver_accepts(2) [OF acc])
  have tk: "take ?n (pkt_v ?q) = take ?n (pkt_v p)"
    using assms(2,4) lq v by (intro nth_equalityI) (simp_all add: MAX_CH_def)
  have ltk: "length (take ?n (pkt_v ?q)) = ?n"
    using assms(2) lq by simp
  have "channel_fields (snd (hub_loop (deliver mac ?d h)))
          = map (\<lambda>j. printNumber (unat (pkt_v ?q ! j))) [0..<?n]"
    unfolding channel_fields_hub_loop [OF deliver_accepts(1) [OF acc]] n
    using assms(2) by (simp add: min_absorb1)
  also have "\<dots> = map (\<lambda>w. printNumber (unat w)) (take ?n (pkt_v ?q))"
    using ltk lq assms(2) by (intro nth_equalityI) simp_all
  finally have ch: "channel_fields (snd (hub_loop (deliver mac ?d h)))
          = map (\<lambda>w. printNumber (unat w)) (take ?n (pkt_v p))"
    unfolding tk .
  from len ver n id seq ms tk ltk ch show ?thesis
    by simp
qed

text \<open>The four-channel datagram: its 19 bytes, and the mailbox after delivery.\<close>

theorem datagram_round_trip_witness:
  "1 \<le> unat (pkt_n example_packet) \<and> unat (pkt_n example_packet) \<le> 32
   \<and> length (pkt_id example_packet) = 3 \<and> length (pkt_v example_packet) = MAX_CH
   \<and> transmit example_packet
       = [1, 4, 0xD4, 0xE5, 0xF6, 42, 0, 0x40, 0xE2, 1, 0, 0x88, 0x13, 0x88, 0x13, 0x88, 0x13, 0x88, 0x13]
   \<and> hub_pkt (deliver example_mac (transmit example_packet) hub_boot) = example_packet
   \<and> take 4 (pkt_v (hub_pkt (deliver example_mac (transmit example_packet) hub_boot)))
       = [5000, 5000, 5000, 5000]"
proof -
  have h: "1 \<le> unat (pkt_n example_packet)" "unat (pkt_n example_packet) \<le> 32"
    "length (pkt_id example_packet) = 3" "length (pkt_v example_packet) = MAX_CH"
    by (simp_all add: example_packet_def MAX_CH_def)
  have wire: "transmit example_packet
       = [1, 4, 0xD4, 0xE5, 0xF6, 42, 0, 0x40, 0xE2, 1, 0, 0x88, 0x13, 0x88, 0x13, 0x88, 0x13, 0x88, 0x13]"
    by code_simp
  have decoded: "hub_pkt (deliver example_mac (transmit example_packet) hub_boot) = example_packet"
    by code_simp
  have "take (unat (pkt_n example_packet)) (pkt_v example_packet) = [5000, 5000, 5000, 5000]"
    by (simp add: example_packet_def)
  moreover have "unat (pkt_n example_packet) = 4"
    by (simp add: example_packet_def)
  ultimately have "take 4 (pkt_v (hub_pkt (deliver example_mac (transmit example_packet) hub_boot)))
       = [5000, 5000, 5000, 5000]"
    using datagram_round_trip [OF h, of example_mac hub_boot] by simp
  with h wire decoded show ?thesis by blast
qed

end
